theory Spec2Isabelle
  imports Main "HOL-Library.Word" "HOL-Library.Multiset"
begin

unbundle bit_operations_syntax

section \<open>Configuration and the integer hash\<close>

text \<open>
  Go's \<open>int\<close> is 64 bits wide on the platforms the hash function is built for (the
  file is tagged \<open>!386,!arm\<close>). Entry keys and values, on which the result depends on
  wrap-around, are 64-bit words read as two's complement; file offsets and sizes, which
  stay far below \<open>2 ^ 63\<close>, are integers.
\<close>

type_synonym go_int = "64 word"
type_synonym byte = "8 word"

definition DocHeader :: int where "DocHeader = 1 + 10"
definition EntrySize :: int where "EntrySize = 1 + 10 + 10"
definition BucketHeader :: int where "BucketHeader = 10"

text \<open>
  \<open>Config\<close>, with the stored tuning parameters and the fields that
  \<open>CalculateConfigConstants\<close> derives from them.
\<close>

record Config =
  DocMaxRoom :: int
  ColFileGrowth :: int
  PerBucket :: int
  HTFileGrowth :: int
  HashBits :: nat
  InitialBuckets :: int
  Padding :: "byte list"
  LenPadding :: int
  BucketSize :: int

text \<open>
  \<open>CalculateConfigConstants\<close>: the padding is 128 spaces, a bucket is its header and
  \<open>PerBucket\<close> entries, and \<open>InitialBuckets = 1 << HashBits\<close> is a shift of a 64-bit
  \<open>int\<close>.
\<close>

definition CalculateConfigConstants :: "Config \<Rightarrow> Config" where
  "CalculateConfigConstants conf = conf
     \<lparr>Padding := replicate 128 0x20,
      LenPadding := 128,
      BucketSize := BucketHeader + PerBucket conf * EntrySize,
      InitialBuckets := sint (push_bit (HashBits conf) (1 :: go_int))\<rparr>"

text \<open>
  \<open>Config.HashKey\<close>. \<open>>>\<close> on a signed \<open>int\<close> is the arithmetic shift, \<open>+\<close> and \<open><<\<close>
  wrap around.
\<close>

definition HashKey :: "Config \<Rightarrow> go_int \<Rightarrow> go_int" where
  "HashKey conf key =
    (let key1 = key XOR (signed_drop_bit 4 key);
         key2 = (key1 XOR 0xdeadbeef) + (push_bit 5 key1);
         key3 = key2 XOR (signed_drop_bit 11 key2)
     in key3 AND (push_bit (HashBits conf) 1 - 1))"

text \<open>
  The specification's definition, on mathematical integers with the 64-bit two's
  complement wrap-around written out: \<open>wrap64\<close> brings a value back into
  \<open>[- 2 ^ 63, 2 ^ 63)\<close>, a right shift of a two's complement number is the division
  that rounds down, a left shift is a multiplication that wraps.
\<close>

definition wrap64 :: "int \<Rightarrow> int" where
  "wrap64 x = (x + 2 ^ 63) mod 2 ^ 64 - 2 ^ 63"

definition smear_spec :: "int \<Rightarrow> int" where
  "smear_spec key =
    (let k1 = key XOR (key div 2 ^ 4);
         k2 = wrap64 ((k1 XOR 0xDEADBEEF) + wrap64 (k1 * 2 ^ 5))
     in k2 XOR (k2 div 2 ^ 11))"

definition HashKey_spec :: "nat \<Rightarrow> int \<Rightarrow> int" where
  "HashKey_spec hashBits key = smear_spec key AND wrap64 (wrap64 (2 ^ hashBits) - 1)"

text \<open>The default configuration (\<open>defaultConfig\<close>).\<close>

definition defaultConfig :: Config where
  "defaultConfig = CalculateConfigConstants
     \<lparr>DocMaxRoom = 2 * 1048576, ColFileGrowth = 32 * 1048576, PerBucket = 16,
      HTFileGrowth = 32 * 1048576, HashBits = 16,
      InitialBuckets = 0, Padding = [], LenPadding = 0, BucketSize = 0\<rparr>"

lemma HashBits_Calculate [simp]: "HashBits (CalculateConfigConstants conf) = HashBits conf"
  by (simp add: CalculateConfigConstants_def)

lemma HashKey_Calculate [simp]: "HashKey (CalculateConfigConstants conf) key = HashKey conf key"
  by (simp add: HashKey_def)

lemma InitialBuckets_Calculate:
  "InitialBuckets (CalculateConfigConstants conf) = sint (push_bit (HashBits conf) (1 :: go_int))"
  by (simp add: CalculateConfigConstants_def)

lemma wrap64_signed_take_bit: "wrap64 x = signed_take_bit 63 x"
  by (simp add: wrap64_def signed_take_bit_eq_take_bit_shift take_bit_eq_mod)

lemma wrap64_small: "0 \<le> x \<Longrightarrow> x < 2 ^ 63 \<Longrightarrow> wrap64 x = x"
  by (simp add: wrap64_def)

lemma sint_deadbeef: "sint (0xdeadbeef :: go_int) = 0xDEADBEEF"
  by simp

lemma sint_one_shift: "sint (push_bit n (1::go_int)) = wrap64 (2 ^ n)"
proof -
  have "sint (push_bit n (1::go_int)) = signed_take_bit 63 (push_bit n (sint (1::go_int)))"
    by (simp only: signed_push_bit_eq) simp
  then show ?thesis by (simp add: wrap64_signed_take_bit push_bit_eq_mult)
qed

lemma HashKey_refines: "sint (HashKey conf key) = HashKey_spec (HashBits conf) (sint key)"
  unfolding HashKey_def HashKey_spec_def smear_spec_def Let_def
  apply (simp only: signed_and_eq signed_xor_eq sint_signed_drop_bit_eq sint_word_ariths
      signed_push_bit_eq sint_deadbeef sint_one_shift)
  apply (simp add: wrap64_signed_take_bit drop_bit_eq_div push_bit_eq_mult)
  done

lemma pow_lt_63: "n < 63 \<Longrightarrow> (2::int) ^ n < 2 ^ 63"
  by (rule power_strict_increasing) simp_all

lemma InitialBuckets_eq:
  "HashBits conf < 63 \<Longrightarrow> InitialBuckets (CalculateConfigConstants conf) = 2 ^ HashBits conf"
  using pow_lt_63 [of "HashBits conf"]
  unfolding InitialBuckets_Calculate sint_one_shift by (simp add: wrap64_small)

lemma wrap64_pow_ge: "63 \<le> n \<Longrightarrow> wrap64 (2 ^ n) \<le> 0"
proof -
  assume "63 \<le> n"
  then consider "n = 63" | "64 \<le> n" by linarith
  then show ?thesis
  proof cases
    case 1
    then show ?thesis by (simp add: wrap64_def)
  next
    case 2
    then obtain k where "n = 64 + k" using le_Suc_ex by blast
    then have "(2::int) ^ n = 2 ^ 64 * 2 ^ k" by (simp add: power_add)
    then have "((2::int) ^ n + 2 ^ 63) mod 2 ^ 64 = 2 ^ 63" by simp
    then show ?thesis by (simp add: wrap64_def)
  qed
qed

lemma InitialBuckets_pos:
  "0 < InitialBuckets (CalculateConfigConstants conf) \<Longrightarrow> HashBits conf < 63"
  using wrap64_pow_ge [of "HashBits conf"]
  unfolding InitialBuckets_Calculate sint_one_shift by fastforce

lemma HashKey_range:
  assumes "HashBits conf < 63"
  shows "0 \<le> sint (HashKey conf key) \<and> sint (HashKey conf key) < 2 ^ HashBits conf"
proof -
  let ?n = "HashBits conf"
  have 1: "wrap64 (2 ^ ?n) = 2 ^ ?n"
    using assms pow_lt_63 by (simp add: wrap64_small)
  have 2: "wrap64 (2 ^ ?n - 1) = 2 ^ ?n - 1"
    using assms pow_lt_63 [of ?n] by (simp add: wrap64_small)
  have "sint (HashKey conf key) = smear_spec (sint key) AND mask ?n"
    by (simp add: HashKey_refines HashKey_spec_def 1 2 mask_eq_exp_minus_1)
  then have "sint (HashKey conf key) = take_bit ?n (smear_spec (sint key))"
    by (simp add: take_bit_eq_mask)
  then show ?thesis by simp
qed

lemma HashKey_bounds:
  "0 < InitialBuckets (CalculateConfigConstants conf) \<Longrightarrow>
     0 \<le> sint (HashKey conf key) \<and>
     sint (HashKey conf key) < InitialBuckets (CalculateConfigConstants conf)"
  using HashKey_range InitialBuckets_pos InitialBuckets_eq by metis

text \<open>
  Claim C6. \<open>HashKey\<close> is a function of the key (and of the configured \<open>HashBits\<close>)
  alone; read as a two's complement number its result is the specification's smear
  computed with 64-bit wrap-around, for every 64-bit key; and whenever the configuration
  has at least one head bucket (\<open>InitialBuckets = 1 << HashBits\<close>, as
  \<open>CalculateConfigConstants\<close> computes it, is positive), the result lies in
  \<open>[0, InitialBuckets)\<close>.
\<close>

theorem HashKey_bit_exact:
  "sint (HashKey conf key) = HashKey_spec (HashBits conf) (sint key) \<and>
   (0 < InitialBuckets (CalculateConfigConstants conf) \<longrightarrow>
      0 \<le> sint (HashKey conf key) \<and>
      sint (HashKey conf key) < InitialBuckets (CalculateConfigConstants conf))"
  using HashKey_refines HashKey_range InitialBuckets_pos InitialBuckets_eq by metis

theorem HashKey_bit_exact_witness:
  "0 < InitialBuckets (CalculateConfigConstants defaultConfig) \<and>
   InitialBuckets (CalculateConfigConstants defaultConfig) = 65536 \<and>
   sint (HashKey defaultConfig (-5)) = 27356 \<and> HashKey_spec 16 (-5) = 27356"
  using HashKey_bit_exact [of defaultConfig "-5"]
  by (simp add: defaultConfig_def CalculateConfigConstants_def HashKey_def HashKey_spec_def
      smear_spec_def wrap64_def)

section \<open>Partition ranges of the head buckets\<close>

text \<open>Go's \<open>/\<close> and \<open>%\<close> on \<open>int\<close> truncate towards zero.\<close>

definition go_quot :: "int \<Rightarrow> int \<Rightarrow> int" where
  "go_quot a b = sgn a * sgn b * (\<bar>a\<bar> div \<bar>b\<bar>)"

definition go_rem :: "int \<Rightarrow> int \<Rightarrow> int" where
  "go_rem a b = a - b * go_quot a b"

text \<open>
  \<open>Config.GetPartitionRange\<close>. The named result \<open>end\<close> starts at 0 and is incremented
  in two of the branches before \<open>start + perPart\<close> is added. A division by
  \<open>totalParts = 0\<close> is a run-time panic: there is no result.
\<close>

definition GetPartitionRange :: "Config \<Rightarrow> int \<Rightarrow> int \<Rightarrow> (int \<times> int) option" where
  "GetPartitionRange conf partNum totalParts =
    (if totalParts = 0 then None
     else
       let perPart = go_quot (InitialBuckets conf) totalParts;
           leftOver = go_rem (InitialBuckets conf) totalParts;
           start0 = partNum * perPart;
           (start, end0) =
             (if leftOver > 0 then
                (if partNum = 0 then (start0, 1)
                 else if partNum < leftOver then (start0 + partNum, 1)
                 else (start0 + leftOver, 0))
              else (start0, 0));
           end1 = end0 + start + perPart
       in Some (start, if partNum = totalParts - 1 then InitialBuckets conf else end1))"

text \<open>The boundary before partition \<open>p\<close>, in closed form.\<close>

definition part_start :: "int \<Rightarrow> int \<Rightarrow> int \<Rightarrow> int" where
  "part_start ib tp p = p * (ib div tp) + min p (ib mod tp)"

lemma go_quot_nonneg: "0 \<le> a \<Longrightarrow> 0 < b \<Longrightarrow> go_quot a b = a div b"
  by (cases "a = 0") (simp_all add: go_quot_def)

lemma go_rem_nonneg: "0 \<le> a \<Longrightarrow> 0 < b \<Longrightarrow> go_rem a b = a mod b"
  by (simp add: go_rem_def go_quot_nonneg minus_mult_div_eq_mod)

lemma part_start_last: "0 < tp \<Longrightarrow> part_start ib tp tp = ib"
proof -
  assume "0 < tp"
  then have "ib mod tp < tp" by simp
  then have "part_start ib tp tp = tp * (ib div tp) + ib mod tp"
    by (simp add: part_start_def min_def)
  then show ?thesis by simp
qed

lemma part_start_mono:
  assumes "1 \<le> tp" "tp \<le> ib" "0 \<le> p"
  shows "part_start ib tp p < part_start ib tp (p + 1)"
proof -
  have "1 \<le> ib div tp" using assms
    by (metis div_by_1 div_self not_one_le_zero zdiv_mono1 zero_less_one_class.zero_le_one order_less_le order_trans)
  then show ?thesis by (simp add: part_start_def min_def algebra_simps)
qed

lemma GetPartitionRange_closed:
  assumes "1 \<le> tp" "tp \<le> InitialBuckets conf" "0 \<le> p" "p < tp"
  shows "GetPartitionRange conf p tp =
     Some (part_start (InitialBuckets conf) tp p, part_start (InitialBuckets conf) tp (p + 1))"
proof -
  define q where "q = InitialBuckets conf div tp"
  define r where "r = InitialBuckets conf mod tp"
  have gq: "go_quot (InitialBuckets conf) tp = q" and gr: "go_rem (InitialBuckets conf) tp = r"
    using assms by (simp_all add: go_quot_nonneg go_rem_nonneg q_def r_def)
  have m: "0 \<le> r" "r < tp" using assms by (simp_all add: r_def)
  have ps: "\<And>x. part_start (InitialBuckets conf) tp x = x * q + min x r"
    by (simp add: part_start_def q_def r_def)
  show ?thesis
  proof (cases "p = tp - 1")
    case True
    have "part_start (InitialBuckets conf) tp (p + 1) = InitialBuckets conf"
      using True part_start_last [of tp] assms by simp
    moreover have "fst (the (GetPartitionRange conf p tp)) = p * q + min p r"
      using assms m by (auto simp: GetPartitionRange_def gq gr Let_def min_def)
    ultimately show ?thesis using assms True
      by (simp add: GetPartitionRange_def gq gr Let_def ps split: prod.splits if_splits)
  next
    case False
    have "(if 0 < r then if p = 0 then (p * q, 1::int) else if p < r then (p * q + p, 1) else (p * q + r, 0)
           else (p * q, 0)) = (p * q + min p r, if p < r then 1 else 0)"
      using m assms by (auto simp: min_def)
    moreover have "(if p < r then 1 else 0) + (p * q + min p r) + q = (p + 1) * q + min (p + 1) r"
      by (simp add: min_def algebra_simps)
    ultimately show ?thesis using assms False
      by (simp add: GetPartitionRange_def gq gr Let_def ps)
  qed
qed

text \<open>
  Claim C8. For at least one head bucket and \<open>1 \<le> totalParts \<le> InitialBuckets\<close>, the
  ranges of the partitions \<open>0, \<dots>, totalParts - 1\<close> tile \<open>[0, InitialBuckets)\<close>: the
  first starts at 0, every range is non-empty, the end of each is the start of the next,
  and the last ends at \<open>InitialBuckets\<close>.
\<close>

theorem GetPartitionRange_partitions:
  assumes "1 \<le> totalParts" and "totalParts \<le> InitialBuckets conf"
  shows "(\<exists>e. GetPartitionRange conf 0 totalParts = Some (0, e)) \<and>
    (\<forall>p. 0 \<le> p \<and> p < totalParts \<longrightarrow>
       (\<exists>s e. GetPartitionRange conf p totalParts = Some (s, e) \<and> s < e \<and>
          (if p = totalParts - 1 then e = InitialBuckets conf
           else \<exists>e'. GetPartitionRange conf (p + 1) totalParts = Some (e, e'))))"
proof (intro conjI allI impI)
  show "\<exists>e. GetPartitionRange conf 0 totalParts = Some (0, e)"
    using GetPartitionRange_closed [OF assms, of 0] assms by (simp add: part_start_def)
next
  fix p assume p: "0 \<le> p \<and> p < totalParts"
  let ?ib = "InitialBuckets conf"
  have 1: "GetPartitionRange conf p totalParts = Some (part_start ?ib totalParts p, part_start ?ib totalParts (p + 1))"
    using GetPartitionRange_closed [OF assms] p by simp
  have 2: "part_start ?ib totalParts p < part_start ?ib totalParts (p + 1)"
    using part_start_mono assms p by simp
  have 3: "p = totalParts - 1 \<Longrightarrow> part_start ?ib totalParts (p + 1) = ?ib"
    using assms part_start_last [of totalParts ?ib] by simp
  have 4: "p \<noteq> totalParts - 1 \<Longrightarrow> \<exists>e'. GetPartitionRange conf (p + 1) totalParts = Some (part_start ?ib totalParts (p + 1), e')"
    using GetPartitionRange_closed [OF assms, of "p + 1"] p by simp
  show "\<exists>s e. GetPartitionRange conf p totalParts = Some (s, e) \<and> s < e \<and>
          (if p = totalParts - 1 then e = InitialBuckets conf
           else \<exists>e'. GetPartitionRange conf (p + 1) totalParts = Some (e, e'))"
    using 1 2 3 4 by auto
qed

definition smallConfig :: Config where
  "smallConfig = CalculateConfigConstants
     \<lparr>DocMaxRoom = 4, ColFileGrowth = 32, PerBucket = 2, HTFileGrowth = 64, HashBits = 3,
      InitialBuckets = 0, Padding = [], LenPadding = 0, BucketSize = 0\<rparr>"

theorem GetPartitionRange_partitions_witness:
  "1 \<le> (3::int) \<and> 3 \<le> InitialBuckets smallConfig \<and>
   GetPartitionRange smallConfig 0 3 = Some (0, 3) \<and>
   GetPartitionRange smallConfig 1 3 = Some (3, 6) \<and>
   GetPartitionRange smallConfig 2 3 = Some (6, 8)"
  using GetPartitionRange_partitions [of 3 smallConfig]
  by (simp add: smallConfig_def CalculateConfigConstants_def GetPartitionRange_def
      go_quot_def go_rem_def)

section \<open>Attribute extraction\<close>

text \<open>
  A decoded JSON value (Go's \<open>interface{}\<close> after \<open>json.Unmarshal\<close>): \<open>nil\<close>, a
  boolean, a number, a string, an array or a map. \<open>GetIn\<close> never looks inside a number,
  so its payload is an integer here. A map is its list of bindings; indexing a map with a
  missing key gives \<open>nil\<close>.
\<close>

datatype json = JNull | JBool bool | JNum int | JStr string
  | JArr "json list" | JObj "(string \<times> json) list"

definition index_map :: "(string \<times> json) list \<Rightarrow> string \<Rightarrow> json" where
  "index_map m seg = (case map_of m seg of None \<Rightarrow> JNull | Some v \<Rightarrow> v)"

text \<open>
  \<open>GetIn\<close>. \<open>GetIn_segs thing segs\<close> is the loop over the remaining path segments
  with the current \<open>thing\<close>, followed by the final type switch; at an array the loop
  calls \<open>GetIn\<close> on every element with the remaining path, the current segment included.
\<close>

function GetIn :: "json \<Rightarrow> string list \<Rightarrow> json list"
  and GetIn_segs :: "json \<Rightarrow> string list \<Rightarrow> json list" where
  "GetIn doc path = (case doc of JObj docMap \<Rightarrow> GetIn_segs doc path | _ \<Rightarrow> [])"
| "GetIn_segs thing [] = (case thing of JArr anArray \<Rightarrow> anArray | _ \<Rightarrow> [thing])"
| "GetIn_segs thing (seg # rest) =
    (case thing of
       JObj aMap \<Rightarrow> GetIn_segs (index_map aMap seg) rest
     | JArr anArray \<Rightarrow> concat (map (\<lambda>element. GetIn element (seg # rest)) anArray)
     | _ \<Rightarrow> [])"
  by pat_completeness auto
termination
  by (relation "measures [\<lambda>x. case x of Inl (d, p) \<Rightarrow> length p | Inr (t, p) \<Rightarrow> length p,
                          \<lambda>x. case x of Inl (d, p) \<Rightarrow> size d | Inr (t, p) \<Rightarrow> size t,
                          \<lambda>x. case x of Inl (d, p) \<Rightarrow> 1 | Inr (t, p) \<Rightarrow> 0]")
     (auto simp: less_Suc_eq_le size_list_estimation')

text \<open>
  The specification's recursive reference, after its words: a map descends into the value
  at the first path segment with the rest of the path; an array recurses into each element
  with the same path and concatenates; anything else yields itself at the end of the path
  and nothing before. The words leave a map with an empty path open: it is yielded like
  any other value at the end of the path.
\<close>

fun GetIn_spec :: "json \<Rightarrow> string list \<Rightarrow> json list" where
  "GetIn_spec (JObj m) (seg # rest) = GetIn_spec (index_map m seg) rest"
| "GetIn_spec (JArr xs) path = concat (map (\<lambda>element. GetIn_spec element path) xs)"
| "GetIn_spec v [] = [v]"
| "GetIn_spec v (seg # rest) = []"

fun is_array :: "json \<Rightarrow> bool" where
  "is_array (JArr xs) = True"
| "is_array v = False"

fun no_nested_arrays :: "json \<Rightarrow> bool" where
  "no_nested_arrays (JArr xs) = (\<forall>e \<in> set xs. \<not> is_array e \<and> no_nested_arrays e)"
| "no_nested_arrays (JObj m) = (\<forall>kv \<in> set m. no_nested_arrays (snd kv))"
| "no_nested_arrays v = True"

lemma GetIn_spec_end: "\<not> is_array v \<Longrightarrow> GetIn_spec v [] = [v]"
  by (cases v) simp_all

lemma GetIn_spec_leaves: "\<forall>e \<in> set xs. \<not> is_array e \<Longrightarrow> concat (map (\<lambda>e. GetIn_spec e []) xs) = xs"
  by (induction xs) (simp_all add: GetIn_spec_end)

lemma no_nested_index_map: "no_nested_arrays (JObj m) \<Longrightarrow> no_nested_arrays (index_map m seg)"
  by (auto simp: index_map_def split: option.splits dest!: map_of_SomeD)

lemma GetIn_agree_mutual:
  "no_nested_arrays doc \<longrightarrow> \<not> is_array doc \<longrightarrow> ((\<exists>m. doc = JObj m) \<or> path \<noteq> []) \<longrightarrow>
     GetIn doc path = GetIn_spec doc path"
  "no_nested_arrays thing \<longrightarrow> GetIn_segs thing segs = GetIn_spec thing segs"
proof (induction doc path and thing segs rule: GetIn_GetIn_segs.induct)
  case (1 doc path)
  show ?case
  proof (cases doc)
    case (JObj m)
    then show ?thesis using 1 by simp
  next
    case (JArr xs)
    then show ?thesis by simp
  qed (cases path; simp)+
next
  case (2 thing)
  show ?case by (cases thing) (simp_all add: GetIn_spec_leaves)
next
  case (3 thing seg rest)
  show ?case
  proof (cases thing)
    case (JObj m)
    then show ?thesis using 3(2) no_nested_index_map [of m seg] by simp
  next
    case (JArr xs)
    have "\<And>x. x \<in> set xs \<Longrightarrow> no_nested_arrays thing \<Longrightarrow>
        GetIn x (seg # rest) = GetIn_spec x (seg # rest)"
      using 3(1) [OF JArr] JArr by (simp del: GetIn.simps)
    then have "no_nested_arrays thing \<Longrightarrow>
        map (\<lambda>element. GetIn element (seg # rest)) xs = map (\<lambda>element. GetIn_spec element (seg # rest)) xs"
      by (simp del: GetIn.simps)
    then have "no_nested_arrays thing \<Longrightarrow>
        concat (map (\<lambda>element. GetIn element (seg # rest)) xs)
          = concat (map (\<lambda>element. GetIn_spec element (seg # rest)) xs)"
      by (rule arg_cong)
    then show ?thesis using JArr by (auto simp del: GetIn.simps no_nested_arrays.simps)
  qed simp_all
qed

text \<open>
  Claim C4, as amended. For every document that is a map in which no array has an array
  as an element, and for every path, \<open>GetIn\<close> yields what the reference definition
  yields.
\<close>

theorem GetIn_agrees_on_documents:
  "no_nested_arrays (JObj docMap) \<Longrightarrow> GetIn (JObj docMap) path = GetIn_spec (JObj docMap) path"
  using GetIn_agree_mutual(1) [of "JObj docMap" path] by simp

theorem GetIn_agrees_on_documents_witness:
  "no_nested_arrays (JObj [(''a'', JArr [JObj [(''b'', JNum 1)], JNum 2, JObj [(''b'', JArr [JNum 3, JNum 4])]])]) \<and>
   GetIn (JObj [(''a'', JArr [JObj [(''b'', JNum 1)], JNum 2, JObj [(''b'', JArr [JNum 3, JNum 4])]])]) [''a'', ''b'']
     = [JNum 1, JNum 3, JNum 4] \<and>
   GetIn_spec (JObj [(''a'', JArr [JObj [(''b'', JNum 1)], JNum 2, JObj [(''b'', JArr [JNum 3, JNum 4])]])]) [''a'', ''b'']
     = [JNum 1, JNum 3, JNum 4]"
  using GetIn_agrees_on_documents [of "[(''a'', JArr [JObj [(''b'', JNum 1)], JNum 2, JObj [(''b'', JArr [JNum 3, JNum 4])]])]" "[''a'', ''b'']"]
  by (simp add: index_map_def)

text \<open>
  Claim C4 as stated fails: on a scalar with an empty path \<open>GetIn\<close> yields nothing where
  the reference yields the scalar, and an array nested in the array at the end of the path
  is yielded as it is where the reference flattens it.
\<close>

theorem GetIn_differs_from_reference:
  "GetIn (JNum 5) [] \<noteq> GetIn_spec (JNum 5) [] \<and>
   GetIn (JObj [(''a'', JArr [JArr [JNum 1], JNum 2])]) [''a'']
     \<noteq> GetIn_spec (JObj [(''a'', JArr [JArr [JNum 1], JNum 2])]) [''a'']"
  by (simp add: index_map_def)

section \<open>Variable-length integers\<close>

text \<open>
  Headers and entries store integers with \<open>binary.PutVarint\<close> and read them with
  \<open>binary.Varint\<close> of Go's \<open>encoding/binary\<close>: the zig-zag encoding of a signed
  64-bit integer, seven bits per byte, least significant group first, the top bit of a byte
  set when another byte follows. \<open>Uvarint_loop\<close> is the decoding loop over the bytes
  of the slice with the index \<open>i\<close>, the accumulated value \<open>x\<close> and the shift \<open>s\<close>; the
  second component of its result is the number of bytes read, 0 when the slice ends
  early and negative on overflow.
\<close>

fun Uvarint_loop :: "byte list \<Rightarrow> nat \<Rightarrow> 64 word \<Rightarrow> nat \<Rightarrow> 64 word \<times> int" where
  "Uvarint_loop [] i x s = (0, 0)"
| "Uvarint_loop (b # bs) i x s =
     (if b < 0x80 then
        (if i > 9 \<or> (i = 9 \<and> b > 1) then (0, - (int i + 1))
         else (x OR push_bit s (ucast b), int i + 1))
      else Uvarint_loop bs (Suc i) (x OR push_bit s (ucast (b AND 0x7f))) (s + 7))"

definition Uvarint :: "byte list \<Rightarrow> 64 word \<times> int" where
  "Uvarint buf = Uvarint_loop buf 0 0 0"

definition Varint :: "byte list \<Rightarrow> go_int \<times> int" where
  "Varint buf =
     (let (ux, n) = Uvarint buf; x = drop_bit 1 ux
      in (if ux AND 1 \<noteq> 0 then NOT x else x, n))"

text \<open>
  \<open>PutUvarint x\<close> and \<open>PutVarint x\<close> are the bytes that the encoders write at the
  start of the slice they are given; the bytes of the slice after them are left as they
  are.
\<close>

function PutUvarint :: "64 word \<Rightarrow> byte list" where
  "PutUvarint x = (if x \<ge> 0x80 then (ucast x OR 0x80) # PutUvarint (drop_bit 7 x) else [ucast x])"
  by pat_completeness auto
termination
proof (relation "measure unat")
  show "wf (measure unat)" by simp
next
  fix x :: "64 word" assume "0x80 \<le> x"
  then have "0 < unat x" by (simp add: word_le_nat_alt)
  then have "unat x div 2 ^ 7 < unat x" by simp
  then have "drop_bit 7 (unat x) < unat x" by (simp add: drop_bit_eq_div)
  then show "(drop_bit 7 x, x) \<in> measure unat"
    by (simp only: in_measure unat_drop_bit_eq)
qed

definition PutVarint :: "go_int \<Rightarrow> byte list" where
  "PutVarint x = (let ux = push_bit 1 x in PutUvarint (if x <s 0 then NOT ux else ux))"

declare PutUvarint.simps [simp del]

lemma byte_or_80_ge: "\<not> (w OR (0x80::byte)) < 0x80"
proof -
  have "(0x80::byte) \<le> 0x80 OR w" by (rule le_word_or2)
  then show ?thesis by (simp add: or.commute not_less)
qed

lemma byte_low7: "(ucast (x :: 64 word) OR (0x80::byte)) AND 0x7f = ucast (take_bit 7 x)"
proof -
  have a: "(0x7f::byte) = mask 7" by (simp add: mask_eq_exp_minus_1)
  have "(ucast x OR (0x80::byte)) AND 0x7f = (ucast x AND 0x7f) OR (0x80 AND 0x7f)"
    by (rule bit.conj_disj_distrib2)
  also have "\<dots> = ucast x AND 0x7f" by simp
  also have "\<dots> = ucast x AND mask 7" by (simp only: a)
  also have "\<dots> = take_bit 7 (ucast x)" by (simp add: take_bit_eq_mask)
  also have "\<dots> = ucast (take_bit 7 x)"
    by (rule bit_word_eqI) (auto simp: bit_simps)
  finally show ?thesis .
qed

lemma acc_step:
  "push_bit s (ucast (ucast (take_bit 7 x) :: byte)) OR push_bit (s + 7) (drop_bit 7 x)
     = push_bit s (x :: 64 word)"
proof -
  have "ucast (ucast (take_bit 7 x) :: byte) = take_bit 7 x"
    by (rule bit_word_eqI) (auto simp: bit_simps)
  moreover have "push_bit (s + 7) (drop_bit 7 x) = push_bit s (push_bit 7 (drop_bit 7 x))"
    by (simp add: push_bit_add add.commute)
  moreover have "take_bit 7 x OR push_bit 7 (drop_bit 7 x) = x"
  proof (rule bit_word_eqI)
    fix n assume "n < LENGTH(64)"
    then show "bit (take_bit 7 x OR push_bit 7 (drop_bit 7 x)) n = bit x n"
      by (cases "n < 7") (auto simp: bit_simps)
  qed
  ultimately show ?thesis
    by (metis push_bit_or)
qed

lemma unat_ge_80: "(0x80 :: 64 word) \<le> x \<longleftrightarrow> 128 \<le> unat x"
  by (simp add: word_le_nat_alt)

lemma small_ucast: 
  assumes "unat (x :: 64 word) < 128" shows "ucast (ucast x :: byte) = x"
proof -
  have "x < 2 ^ 7" using assms by (simp add: word_less_nat_alt)
  then have "take_bit 7 x = x" by (simp add: take_bit_eq_mask less_mask_eq)
  moreover have "ucast (ucast (take_bit 7 x) :: byte) = take_bit 7 x"
    by (rule bit_word_eqI) (auto simp: bit_simps)
  ultimately show ?thesis by simp
qed

lemma unat_ucast_small: "unat (x :: 64 word) < 128 \<Longrightarrow> unat (ucast x :: byte) = unat x"
  by (simp add: unsigned_ucast_eq take_bit_nat_eq_self)

lemma small_byte: "unat (x :: 64 word) < 128 \<Longrightarrow> (ucast x :: byte) < 0x80"
  by (simp add: word_less_nat_alt unat_ucast_small)

lemma small_byte1: "unat (x :: 64 word) < 2 \<Longrightarrow> \<not> 1 < (ucast x :: byte)"
  by (simp add: word_less_nat_alt unat_ucast_small)

lemma Uvarint_loop_Put:
  "7 * i = s \<Longrightarrow> i \<le> 9 \<Longrightarrow> unat u < 2 ^ (64 - s) \<Longrightarrow>
   Uvarint_loop (PutUvarint u @ rest) i acc s = (acc OR push_bit s u, int i + int (length (PutUvarint u)))
   \<and> i + length (PutUvarint u) \<le> 10"
proof (induction u arbitrary: i s acc rule: PutUvarint.induct)
  case (1 x)
  show ?case
  proof (cases "x \<ge> 0x80")
    case True
    then have x128: "128 \<le> unat x" by (simp add: unat_ge_80)
    have i8: "i \<le> 8"
    proof (rule ccontr)
      assume "\<not> i \<le> 8"
      then have "i = 9" using 1 by simp
      then show False using 1 x128 by simp
    qed
    have s56: "s \<le> 56" using i8 1 by simp
    have "64 - s = 7 + (64 - (s + 7))" using s56 by simp
    then have "(2::nat) ^ (64 - s) = 2 ^ 7 * 2 ^ (64 - (s + 7))"
      by (metis power_add)
    then have "unat x div 2 ^ 7 < 2 ^ (64 - (s + 7))"
      using 1(4) by (simp add: less_mult_imp_div_less mult.commute)
    then have "drop_bit 7 (unat x) < 2 ^ (64 - (s + 7))"
      by (simp add: drop_bit_eq_div)
    then have sm: "unat (drop_bit 7 x) < 2 ^ (64 - (s + 7))"
      by (simp only: unat_drop_bit_eq)
    have P: "PutUvarint x = (ucast x OR 0x80) # PutUvarint (drop_bit 7 x)"
      using True by (subst PutUvarint.simps) simp
    have IH: "Uvarint_loop (PutUvarint (drop_bit 7 x) @ rest) (Suc i) (acc OR push_bit s (ucast (ucast (take_bit 7 x) :: byte))) (s + 7)
        = ((acc OR push_bit s (ucast (ucast (take_bit 7 x) :: byte))) OR push_bit (s + 7) (drop_bit 7 x),
            int (Suc i) + int (length (PutUvarint (drop_bit 7 x))))
        \<and> Suc i + length (PutUvarint (drop_bit 7 x)) \<le> 10"
      using 1(1) [OF True, of "Suc i" "s + 7"] 1(2) i8 sm by simp
    show ?thesis
      unfolding P using IH
      by (simp add: byte_or_80_ge byte_low7 acc_step or.assoc)
  next
    case False
    then have x128: "unat x < 128" by (simp add: unat_ge_80)
    have P: "PutUvarint x = [ucast x]"
      using False by (subst PutUvarint.simps) simp
    have "i = 9 \<Longrightarrow> \<not> 1 < (ucast x :: byte)"
      using 1 by (intro small_byte1) auto
    then show ?thesis
      unfolding P using 1(3) x128
      by (auto simp add: small_byte small_ucast)
  qed
qed

lemma sless_0_bit: "(x :: go_int) <s 0 \<longleftrightarrow> bit x 63"
  using bit_last_iff [of x] by (simp add: word_sless_alt)

lemma bit_drop_push:
  "n < LENGTH(64) \<Longrightarrow> bit (drop_bit k (push_bit k (x :: go_int))) n = (k + n < 64 \<and> bit x n)"
  by (auto simp: bit_simps)

lemma bit_not_drop_not_push:
  "n < LENGTH(64) \<Longrightarrow>
     bit (NOT (drop_bit k (NOT (push_bit k (x :: go_int))))) n = (k + n < 64 \<longrightarrow> bit x n)"
  by (auto simp: bit_simps)

lemma push_and_1: "0 < k \<Longrightarrow> push_bit k (x :: go_int) AND 1 = 0"
  by (rule bit_word_eqI) (auto simp: bit_simps)

lemma not_push_and_1: "0 < k \<Longrightarrow> NOT (push_bit k (x :: go_int)) AND 1 = 1"
  by (rule bit_word_eqI) (auto simp: bit_simps)

lemma zigzag_nonneg:
  assumes "\<not> (x :: go_int) <s 0"
  shows "drop_bit 1 (push_bit 1 x) = x" and "push_bit 1 x AND 1 = 0"
proof -
  have n: "\<not> bit x 63" using assms by (simp add: sless_0_bit)
  show "drop_bit 1 (push_bit 1 x) = x"
  proof (rule bit_word_eqI)
    fix n assume "n < LENGTH(64)"
    then show "bit (drop_bit 1 (push_bit 1 x)) n = bit x n"
      unfolding bit_drop_push [OF \<open>n < LENGTH(64)\<close>] using n by (cases "n = 63") auto
  qed
  show "push_bit 1 x AND 1 = 0"
    by (rule push_and_1) simp
qed

lemma zigzag_neg:
  assumes "(x :: go_int) <s 0"
  shows "NOT (drop_bit 1 (NOT (push_bit 1 x))) = x" and "NOT (push_bit 1 x) AND 1 \<noteq> 0"
proof -
  have n: "bit x 63" using assms by (simp add: sless_0_bit)
  show "NOT (drop_bit 1 (NOT (push_bit 1 x))) = x"
  proof (rule bit_word_eqI)
    fix n assume "n < LENGTH(64)"
    then show "bit (NOT (drop_bit 1 (NOT (push_bit 1 x)))) n = bit x n"
      unfolding bit_not_drop_not_push [OF \<open>n < LENGTH(64)\<close>] using n by (cases "n = 63") auto
  qed
  have "NOT (push_bit 1 x) AND 1 = 1"
    by (rule not_push_and_1) simp
  then show "NOT (push_bit 1 x) AND 1 \<noteq> 0" by (simp only:) simp
qed

text \<open>Decoding what was encoded gives the integer back, whatever follows in the slice.\<close>

lemma Varint_PutVarint_both:
  "fst (Varint (PutVarint x @ rest)) = x \<and> length (PutVarint x) \<le> 10 \<and> 0 < length (PutVarint x)"
proof -
  define ux where "ux = (if x <s 0 then NOT (push_bit 1 x) else push_bit 1 x)"
  have U: "Uvarint_loop (PutUvarint ux @ rest) 0 0 0 = (0 OR push_bit 0 ux, int 0 + int (length (PutUvarint ux)))
     \<and> 0 + length (PutUvarint ux) \<le> 10"
    using unsigned_less [of ux, where 'a = nat] by (intro Uvarint_loop_Put) simp_all
  have P: "PutVarint x = PutUvarint ux" by (simp add: PutVarint_def ux_def Let_def)
  have 1: "length (PutVarint x) \<le> 10" using U P by simp
  have 2: "0 < length (PutVarint x)" unfolding P by (subst PutUvarint.simps) simp
  have 3: "fst (Varint (PutVarint x @ rest)) = x"
  proof (cases "x <s 0")
    case True
    then show ?thesis using U zigzag_neg [OF True]
      by (simp add: P Varint_def Uvarint_def ux_def)
  next
    case False
    then show ?thesis using U zigzag_nonneg [OF False]
      by (simp add: P Varint_def Uvarint_def ux_def)
  qed
  show ?thesis using 1 2 3 by simp
qed

lemma Varint_PutVarint: "fst (Varint (PutVarint x @ rest)) = x"
  using Varint_PutVarint_both [of x rest] by simp

lemma PutVarint_length: "length (PutVarint x) \<le> 10"
  using Varint_PutVarint_both [of x "[]"] by simp

lemma PutVarint_nonempty: "0 < length (PutVarint x)"
  using Varint_PutVarint_both [of x "[]"] by simp

section \<open>Data files\<close>

text \<open>
  The errors of package \<open>dberr\<close> that the storage layer returns, and the run-time panic
  of an index or a slice expression out of range.
\<close>

datatype error = ErrorDocTooLarge | ErrorNoDoc | RuntimePanic

text \<open>
  Accesses to the mapped buffer. An index expression \<open>buf[i]\<close> needs \<open>0 \<le> i < len(buf)\<close>
  and a slice expression \<open>buf[lo:hi]\<close> needs \<open>0 \<le> lo \<le> hi \<le> len(buf)\<close>; otherwise the
  program panics, which is \<open>None\<close> here. \<open>store buf lo bs\<close> overwrites the bytes from
  offset \<open>lo\<close> with \<open>bs\<close>; \<open>copy_slice buf lo hi src\<close> is \<open>copy(buf[lo:hi], src)\<close>, which
  copies as many bytes as the shorter of the two holds; \<open>PutVarint_slice\<close> and
  \<open>Varint_slice\<close> encode into and decode from \<open>buf[lo:hi]\<close>.
\<close>

definition valid_index :: "byte list \<Rightarrow> int \<Rightarrow> bool" where
  "valid_index buf i \<longleftrightarrow> 0 \<le> i \<and> i < int (length buf)"

definition valid_slice :: "byte list \<Rightarrow> int \<Rightarrow> int \<Rightarrow> bool" where
  "valid_slice buf lo hi \<longleftrightarrow> 0 \<le> lo \<and> lo \<le> hi \<and> hi \<le> int (length buf)"

definition get_byte :: "byte list \<Rightarrow> int \<Rightarrow> byte option" where
  "get_byte buf i = (if valid_index buf i then Some (buf ! nat i) else None)"

definition set_byte :: "byte list \<Rightarrow> int \<Rightarrow> byte \<Rightarrow> byte list option" where
  "set_byte buf i v = (if valid_index buf i then Some (buf[nat i := v]) else None)"

definition get_slice :: "byte list \<Rightarrow> int \<Rightarrow> int \<Rightarrow> byte list option" where
  "get_slice buf lo hi =
     (if valid_slice buf lo hi then Some (take (nat (hi - lo)) (drop (nat lo) buf)) else None)"

definition store :: "byte list \<Rightarrow> int \<Rightarrow> byte list \<Rightarrow> byte list" where
  "store buf lo bs = take (nat lo) buf @ bs @ drop (nat lo + length bs) buf"

definition copy_slice :: "byte list \<Rightarrow> int \<Rightarrow> int \<Rightarrow> byte list \<Rightarrow> byte list option" where
  "copy_slice buf lo hi src =
     (if valid_slice buf lo hi then Some (store buf lo (take (nat (hi - lo)) src)) else None)"

definition PutVarint_slice :: "byte list \<Rightarrow> int \<Rightarrow> int \<Rightarrow> go_int \<Rightarrow> byte list option" where
  "PutVarint_slice buf lo hi x =
     (if valid_slice buf lo hi \<and> int (length (PutVarint x)) \<le> hi - lo
      then Some (store buf lo (PutVarint x)) else None)"

definition Varint_slice :: "byte list \<Rightarrow> int \<Rightarrow> int \<Rightarrow> (go_int \<times> int) option" where
  "Varint_slice buf lo hi = map_option Varint (get_slice buf lo hi)"

text \<open>
  \<open>DataFile\<close>: the watermark \<open>Used\<close>, the file size, the growth increment and the
  mapped bytes of the whole file. File system calls are taken to succeed.
\<close>

record DataFile =
  Used :: int
  Size :: int
  Growth :: int
  Buf :: "byte list"

text \<open>
  \<open>DataFile.EnsureSize\<close> appends \<open>Growth\<close> zero bytes to the file, maps it again and
  calls itself until the requested room is there. With a growth that is not positive it
  never returns, which is the value \<open>None\<close>.
\<close>

partial_function (option) EnsureSize :: "'a DataFile_scheme \<Rightarrow> int \<Rightarrow> 'a DataFile_scheme option" where
  "EnsureSize file more' =
     (if Used file + more' \<le> Size file then Some file
      else EnsureSize (file\<lparr>Buf := Buf file @ replicate (nat (Growth file)) 0,
                            Size := Size file + Growth file\<rparr>) more')"

declare EnsureSize.simps [code]

text \<open>\<open>DataFile.Clear\<close>: the file is truncated and refilled with one increment of zeros.\<close>

definition DataFile_Clear :: "'a DataFile_scheme \<Rightarrow> 'a DataFile_scheme" where
  "DataFile_Clear file = file\<lparr>Buf := replicate (nat (Growth file)) 0, Used := 0, Size := Growth file\<rparr>"

section \<open>Collection files\<close>

text \<open>A \<open>Collection\<close> is a data file together with the configuration.\<close>

record Collection = DataFile +
  col_conf :: Config

text \<open>
  The padding loop shared by \<open>Insert\<close> and \<open>Update\<close>: from \<open>padding\<close> up to
  \<open>paddingEnd\<close> the buffer is filled with copies of \<open>Padding\<close>, the last one cut
  short. The inner result is \<open>None\<close> when a slice expression panics; with
  \<open>LenPadding = 0\<close> the loop never ends.
\<close>

partial_function (option) write_padding :: "Config \<Rightarrow> byte list \<Rightarrow> int \<Rightarrow> int \<Rightarrow> byte list option option" where
  "write_padding conf buf padding paddingEnd =
     (if padding < paddingEnd then
        (let copySize = (if padding + LenPadding conf \<ge> paddingEnd then paddingEnd - padding
                         else LenPadding conf)
         in case copy_slice buf padding (padding + copySize) (Padding conf) of
              None \<Rightarrow> Some None
            | Some buf' \<Rightarrow> write_padding conf buf' (padding + LenPadding conf) paddingEnd)
      else Some (Some buf))"

declare write_padding.simps [code]

text \<open>
  \<open>Collection.Read\<close>. The result \<open>Inr None\<close> is Go's \<open>nil\<close>; \<open>make\<close> with a
  negative length panics.
\<close>

definition Collection_Read :: "Collection \<Rightarrow> int \<Rightarrow> error + byte list option" where
  "Collection_Read col id' =
     (if id' < 0 \<or> id' > Used col - DocHeader then Inr None
      else case get_byte (Buf col) id' of
        None \<Rightarrow> Inl RuntimePanic
      | Some flag \<Rightarrow>
          if flag \<noteq> 1 then Inr None
          else case Varint_slice (Buf col) (id' + 1) (id' + 11) of
            None \<Rightarrow> Inl RuntimePanic
          | Some (room, _) \<Rightarrow>
              if sint room > DocMaxRoom (col_conf col) then Inr None
              else let docEnd = id' + DocHeader + sint room in
                if docEnd \<ge> Size col then Inr None
                else if sint room < 0 then Inl RuntimePanic
                else case get_slice (Buf col) (id' + DocHeader) docEnd of
                  None \<Rightarrow> Inl RuntimePanic
                | Some doc \<Rightarrow> Inr (Some doc))"

text \<open>
  \<open>Collection.Insert\<close>, \<open>Collection.Delete\<close> and \<open>Collection.Update\<close>. Each returns
  its result together with the collection as it leaves it, also when the result is an
  error.
\<close>

definition Collection_Insert :: "Collection \<Rightarrow> byte list \<Rightarrow> ((error + int) \<times> Collection) option" where
  "Collection_Insert col data =
     (let room = 2 * int (length data) in
      if room > DocMaxRoom (col_conf col) then Some (Inl ErrorDocTooLarge, col)
      else
        let id' = Used col; docSize = DocHeader + room in
        case EnsureSize col docSize of
          None \<Rightarrow> None
        | Some col1 \<Rightarrow>
            let col2 = col1\<lparr>Used := Used col1 + docSize\<rparr> in
            case set_byte (Buf col2) id' 1 of
              None \<Rightarrow> Some (Inl RuntimePanic, col2)
            | Some buf1 \<Rightarrow>
            case PutVarint_slice buf1 (id' + 1) (id' + 11) (word_of_int room) of
              None \<Rightarrow> Some (Inl RuntimePanic, col2)
            | Some buf2 \<Rightarrow>
            case copy_slice buf2 (id' + DocHeader) (Used col2) data of
              None \<Rightarrow> Some (Inl RuntimePanic, col2)
            | Some buf3 \<Rightarrow>
            case write_padding (col_conf col) buf3 (id' + DocHeader + int (length data)) (Used col2) of
              None \<Rightarrow> None
            | Some None \<Rightarrow> Some (Inl RuntimePanic, col2)
            | Some (Some buf4) \<Rightarrow> Some (Inr id', col2\<lparr>Buf := buf4\<rparr>))"

definition Collection_Delete :: "Collection \<Rightarrow> int \<Rightarrow> error option \<times> Collection" where
  "Collection_Delete col id' =
     (if id' < 0 \<or> id' > Used col - DocHeader then (Some ErrorNoDoc, col)
      else case get_byte (Buf col) id' of
        None \<Rightarrow> (Some RuntimePanic, col)
      | Some flag \<Rightarrow>
          if flag \<noteq> 1 then (Some ErrorNoDoc, col)
          else (None, col\<lparr>Buf := (Buf col)[nat id' := 0]\<rparr>))"

definition Collection_Update :: "Collection \<Rightarrow> int \<Rightarrow> byte list \<Rightarrow> ((error + int) \<times> Collection) option" where
  "Collection_Update col id' data =
     (let dataLen = int (length data) in
      if dataLen > DocMaxRoom (col_conf col) then Some (Inl ErrorDocTooLarge, col)
      else if id' < 0 \<or> id' \<ge> Used col - DocHeader then Some (Inl ErrorNoDoc, col)
      else case get_byte (Buf col) id' of
        None \<Rightarrow> Some (Inl RuntimePanic, col)
      | Some flag \<Rightarrow>
          if flag \<noteq> 1 then Some (Inl ErrorNoDoc, col)
          else case Varint_slice (Buf col) (id' + 1) (id' + 11) of
            None \<Rightarrow> Some (Inl RuntimePanic, col)
          | Some (currentDocRoom, _) \<Rightarrow>
              if sint currentDocRoom > DocMaxRoom (col_conf col) then Some (Inl ErrorNoDoc, col)
              else if id' + DocHeader + sint currentDocRoom \<ge> Size col then Some (Inl ErrorNoDoc, col)
              else if dataLen \<le> sint currentDocRoom then
                (let padding = id' + DocHeader + int (length data);
                     paddingEnd = id' + DocHeader + sint currentDocRoom
                 in case copy_slice (Buf col) (id' + DocHeader) padding data of
                      None \<Rightarrow> Some (Inl RuntimePanic, col)
                    | Some buf1 \<Rightarrow>
                        (case write_padding (col_conf col) buf1 padding paddingEnd of
                           None \<Rightarrow> None
                         | Some None \<Rightarrow> Some (Inl RuntimePanic, col)
                         | Some (Some buf2) \<Rightarrow> Some (Inr id', col\<lparr>Buf := buf2\<rparr>)))
              else
                (case Collection_Delete col id' of
                   (Some RuntimePanic, col1) \<Rightarrow> Some (Inl RuntimePanic, col1)
                 | (_, col1) \<Rightarrow> Collection_Insert col1 data))"

text \<open>
  A collection on an empty file, and the collection file just created or cleared: one
  growth increment of zero bytes, nothing in use.
\<close>

definition closedCollection :: "Config \<Rightarrow> Collection" where
  "closedCollection conf =
     \<lparr>Used = 0, Size = 0, Growth = ColFileGrowth conf, Buf = [],
      col_conf = CalculateConfigConstants conf\<rparr>"

definition newCollection :: "Config \<Rightarrow> Collection" where
  "newCollection conf = DataFile_Clear (closedCollection conf)"

section \<open>Hash tables\<close>

text \<open>A \<open>HashTable\<close> is a data file with the configuration and the number of buckets.\<close>

record HashTable = DataFile +
  ht_conf :: Config
  numBuckets :: int

text \<open>\<open>HashTable.nextBucket\<close>, with its validation of the stored link.\<close>

definition nextBucket :: "HashTable \<Rightarrow> int \<Rightarrow> error + int" where
  "nextBucket ht bucket =
     (if bucket \<ge> numBuckets ht then Inr 0
      else
        let bucketAddr = bucket * BucketSize (ht_conf ht) in
        case Varint_slice (Buf ht) bucketAddr (bucketAddr + 10) of
          None \<Rightarrow> Inl RuntimePanic
        | Some (nextUint, err) \<Rightarrow>
            let next = sint nextUint in
            if next = 0 then Inr 0
            else if err < 0 \<or> next \<le> bucket \<or> next \<ge> numBuckets ht
                    \<or> next < InitialBuckets (ht_conf ht) then Inr 0
            else Inr next)"

lemma nextBucket_increases:
  "nextBucket ht bucket = Inr next \<Longrightarrow> next \<noteq> 0 \<Longrightarrow> bucket < next \<and> next < numBuckets ht"
  by (auto simp: nextBucket_def Let_def split: if_splits option.splits prod.splits)

text \<open>
  \<open>HashTable.lastBucket\<close> follows the links to the end of the chain. It is a total
  function: every link it follows leads to a larger bucket number below \<open>numBuckets\<close>.
\<close>

function lastBucket :: "HashTable \<Rightarrow> int \<Rightarrow> error + int" where
  "lastBucket ht cur =
     (case nextBucket ht cur of
        Inl e \<Rightarrow> Inl e
      | Inr next \<Rightarrow> if next = 0 then Inr cur else lastBucket ht next)"
  by pat_completeness auto
termination
  by (relation "measure (\<lambda>(ht, cur). nat (numBuckets ht - cur))")
     (auto dest: nextBucket_increases)

text \<open>\<open>HashTable.growBucket\<close>.\<close>

definition growBucket :: "HashTable \<Rightarrow> int \<Rightarrow> (error + HashTable) option" where
  "growBucket ht bucket =
     (case EnsureSize ht (BucketSize (ht_conf ht)) of
        None \<Rightarrow> None
      | Some ht1 \<Rightarrow>
          (case lastBucket ht1 bucket of
             Inl e \<Rightarrow> Some (Inl e)
           | Inr lb \<Rightarrow>
               let lastBucketAddr = lb * BucketSize (ht_conf ht1) in
               case PutVarint_slice (Buf ht1) lastBucketAddr (lastBucketAddr + 10)
                      (word_of_int (numBuckets ht1)) of
                 None \<Rightarrow> Some (Inl RuntimePanic)
               | Some buf \<Rightarrow>
                   Some (Inr (ht1\<lparr>Buf := buf, Used := Used ht1 + BucketSize (ht_conf ht1),
                                  numBuckets := numBuckets ht1 + 1\<rparr>))))"

text \<open>
  The address of an entry, and the tail that the loops of \<open>Get\<close>, \<open>Remove\<close> and
  \<open>collectEntries\<close> share: \<open>entry++\<close>, and at \<open>PerBucket\<close> the walk moves to entry 0
  of the next bucket of the chain or ends (\<open>Inr None\<close>).
\<close>

definition entry_addr :: "HashTable \<Rightarrow> int \<Rightarrow> int \<Rightarrow> int" where
  "entry_addr ht bucket entry = bucket * BucketSize (ht_conf ht) + BucketHeader + entry * EntrySize"

definition next_entry :: "HashTable \<Rightarrow> int \<Rightarrow> int \<Rightarrow> error + (int \<times> int) option" where
  "next_entry ht entry bucket =
     (if entry + 1 = PerBucket (ht_conf ht) then
        (case nextBucket ht bucket of
           Inl e \<Rightarrow> Inl e
         | Inr nb \<Rightarrow> if nb = 0 then Inr None else Inr (Some (0, nb)))
      else Inr (Some (entry + 1, bucket)))"

text \<open>
  \<open>HashTable.Put\<close>: \<open>Put_loop\<close> is its loop at \<open>(bucket, entry)\<close>; at the end of a full
  chain it grows the chain and starts over, as the recursive call of \<open>Put\<close> does.
\<close>

partial_function (option) Put_loop :: "HashTable \<Rightarrow> go_int \<Rightarrow> go_int \<Rightarrow> int \<Rightarrow> int \<Rightarrow> (error + HashTable) option" where
  "Put_loop ht key val bucket entry =
     (let entryAddr = entry_addr ht bucket entry in
      case get_byte (Buf ht) entryAddr of
        None \<Rightarrow> Some (Inl RuntimePanic)
      | Some flag \<Rightarrow>
          if flag \<noteq> 1 then
            (case PutVarint_slice ((Buf ht)[nat entryAddr := 1]) (entryAddr + 1) (entryAddr + 11) key of
               None \<Rightarrow> Some (Inl RuntimePanic)
             | Some buf1 \<Rightarrow>
                 (case PutVarint_slice buf1 (entryAddr + 11) (entryAddr + 21) val of
                    None \<Rightarrow> Some (Inl RuntimePanic)
                  | Some buf2 \<Rightarrow> Some (Inr (ht\<lparr>Buf := buf2\<rparr>))))
          else if entry + 1 = PerBucket (ht_conf ht) then
            (case nextBucket ht bucket of
               Inl e \<Rightarrow> Some (Inl e)
             | Inr nb \<Rightarrow>
                 if nb = 0 then
                   (case growBucket ht (sint (HashKey (ht_conf ht) key)) of
                      None \<Rightarrow> None
                    | Some (Inl e) \<Rightarrow> Some (Inl e)
                    | Some (Inr ht') \<Rightarrow> Put_loop ht' key val (sint (HashKey (ht_conf ht') key)) 0)
                 else Put_loop ht key val nb 0)
          else Put_loop ht key val bucket (entry + 1))"

declare Put_loop.simps [code]

definition Put :: "HashTable \<Rightarrow> go_int \<Rightarrow> go_int \<Rightarrow> (error + HashTable) option" where
  "Put ht key val = Put_loop ht key val (sint (HashKey (ht_conf ht) key)) 0"

text \<open>
  The loops of \<open>Get\<close> and \<open>Remove\<close> terminate on every buffer: a step either moves to
  a larger bucket number below \<open>numBuckets\<close>, or stays in the bucket and moves the entry
  address 21 bytes closer to the end of the buffer, which the reads of the entry found
  to be at least 21 bytes away.
\<close>

definition walk_rel :: "((HashTable \<times> int \<times> int) \<times> (HashTable \<times> int \<times> int)) set" where
  "walk_rel = measures [\<lambda>(ht, entry, bucket). nat (numBuckets ht - bucket),
               \<lambda>(ht, entry, bucket). nat (int (length (Buf ht)) - entry_addr ht bucket entry)]"

lemma wf_walk_rel: "wf walk_rel"
  by (simp add: walk_rel_def)

lemma next_entry_measure:
  assumes "next_entry ht entry bucket = Inr (Some (entry', bucket'))"
    and "Varint_slice (Buf ht) (entry_addr ht bucket entry + 11) (entry_addr ht bucket entry + 21) = Some v"
  shows "((ht, entry', bucket'), (ht, entry, bucket)) \<in> walk_rel"
proof (cases "entry + 1 = PerBucket (ht_conf ht)")
  case True
  then obtain nb where "nextBucket ht bucket = Inr nb" "nb \<noteq> 0" "bucket' = nb"
    using assms(1) by (auto simp: next_entry_def split: sum.splits if_splits)
  then show ?thesis using nextBucket_increases [of ht bucket nb] by (simp add: walk_rel_def)
next
  case False
  then have e: "entry' = entry + 1" "bucket' = bucket"
    using assms(1) by (auto simp: next_entry_def)
  have "entry_addr ht bucket entry + 21 \<le> int (length (Buf ht))"
    using assms(2) by (auto simp: Varint_slice_def get_slice_def valid_slice_def split: if_splits)
  then show ?thesis using e by (simp add: walk_rel_def entry_addr_def EntrySize_def algebra_simps)
qed

text \<open>
  \<open>HashTable.Get\<close>; \<open>Get_loop\<close> is its loop with the loop variables as arguments. Before
  the loop \<open>Get\<close> allocates the result with \<open>make([]int, 0, limit)\<close>, which panics when
  \<open>limit\<close> is negative.
\<close>

function Get_loop :: "HashTable \<Rightarrow> go_int \<Rightarrow> int \<Rightarrow> int \<Rightarrow> int \<Rightarrow> int \<Rightarrow> go_int list \<Rightarrow> error + go_int list" where
  "Get_loop ht key limit count' entry bucket vals =
     (let entryAddr = entry_addr ht bucket entry in
      case Varint_slice (Buf ht) (entryAddr + 1) (entryAddr + 11) of
        None \<Rightarrow> Inl RuntimePanic
      | Some (entryKey, _) \<Rightarrow>
      case Varint_slice (Buf ht) (entryAddr + 11) (entryAddr + 21) of
        None \<Rightarrow> Inl RuntimePanic
      | Some (entryVal, _) \<Rightarrow>
      case get_byte (Buf ht) entryAddr of
        None \<Rightarrow> Inl RuntimePanic
      | Some flag \<Rightarrow>
          if flag = 1 then
            (if entryKey = key then
               (if count' + 1 = limit then Inr (vals @ [entryVal])
                else case next_entry ht entry bucket of
                  Inl e \<Rightarrow> Inl e
                | Inr None \<Rightarrow> Inr (vals @ [entryVal])
                | Inr (Some (entry', bucket')) \<Rightarrow>
                    Get_loop ht key limit (count' + 1) entry' bucket' (vals @ [entryVal]))
             else case next_entry ht entry bucket of
                  Inl e \<Rightarrow> Inl e
                | Inr None \<Rightarrow> Inr vals
                | Inr (Some (entry', bucket')) \<Rightarrow> Get_loop ht key limit count' entry' bucket' vals)
          else if entryKey = 0 \<and> entryVal = 0 then Inr vals
          else case next_entry ht entry bucket of
                  Inl e \<Rightarrow> Inl e
                | Inr None \<Rightarrow> Inr vals
                | Inr (Some (entry', bucket')) \<Rightarrow> Get_loop ht key limit count' entry' bucket' vals)"
  by pat_completeness auto
termination
  by (relation "inv_image walk_rel
             (\<lambda>(ht, key, limit, count', entry, bucket, vals). (ht, entry, bucket))")
     (auto simp: wf_walk_rel intro: next_entry_measure)

definition Get :: "HashTable \<Rightarrow> go_int \<Rightarrow> int \<Rightarrow> error + go_int list" where
  "Get ht key limit =
     (if limit < 0 then Inl RuntimePanic
      else Get_loop ht key limit 0 0 (sint (HashKey (ht_conf ht) key)) [])"

text \<open>\<open>HashTable.Remove\<close>.\<close>

function Remove_loop :: "HashTable \<Rightarrow> go_int \<Rightarrow> go_int \<Rightarrow> int \<Rightarrow> int \<Rightarrow> error + HashTable" where
  "Remove_loop ht key val entry bucket =
     (let entryAddr = entry_addr ht bucket entry in
      case Varint_slice (Buf ht) (entryAddr + 1) (entryAddr + 11) of
        None \<Rightarrow> Inl RuntimePanic
      | Some (entryKey, _) \<Rightarrow>
      case Varint_slice (Buf ht) (entryAddr + 11) (entryAddr + 21) of
        None \<Rightarrow> Inl RuntimePanic
      | Some (entryVal, _) \<Rightarrow>
      case get_byte (Buf ht) entryAddr of
        None \<Rightarrow> Inl RuntimePanic
      | Some flag \<Rightarrow>
          if flag = 1 then
            (if entryKey = key \<and> entryVal = val then Inr (ht\<lparr>Buf := (Buf ht)[nat entryAddr := 0]\<rparr>)
             else case next_entry ht entry bucket of
                  Inl e \<Rightarrow> Inl e
                | Inr None \<Rightarrow> Inr ht
                | Inr (Some (entry', bucket')) \<Rightarrow> Remove_loop ht key val entry' bucket')
          else if entryKey = 0 \<and> entryVal = 0 then Inr ht
          else case next_entry ht entry bucket of
                  Inl e \<Rightarrow> Inl e
                | Inr None \<Rightarrow> Inr ht
                | Inr (Some (entry', bucket')) \<Rightarrow> Remove_loop ht key val entry' bucket')"
  by pat_completeness auto
termination
  by (relation "inv_image walk_rel (\<lambda>(ht, key, val, entry, bucket). (ht, entry, bucket))")
     (auto simp: wf_walk_rel intro: next_entry_measure)

definition Remove :: "HashTable \<Rightarrow> go_int \<Rightarrow> go_int \<Rightarrow> error + HashTable" where
  "Remove ht key val = Remove_loop ht key val 0 (sint (HashKey (ht_conf ht) key))"

text \<open>
  \<open>HashTable.calculateNumBuckets\<close> and \<open>HashTable.Clear\<close>. A division by a bucket
  size of 0 panics.
\<close>

definition calculateNumBuckets :: "HashTable \<Rightarrow> (error + HashTable) option" where
  "calculateNumBuckets ht =
     (if BucketSize (ht_conf ht) = 0 then Some (Inl RuntimePanic)
      else
        let ht1 = ht\<lparr>numBuckets := go_quot (Size ht) (BucketSize (ht_conf ht))\<rparr>;
            scan = fold (\<lambda>i acc. case acc of
                           Inl e \<Rightarrow> Inl e
                         | Inr largestBucketNum \<Rightarrow>
                             (case lastBucket ht1 i of
                                Inl e \<Rightarrow> Inl e
                              | Inr lb \<Rightarrow>
                                  if lb > largestBucketNum \<and> lb < numBuckets ht1
                                  then Inr lb else Inr largestBucketNum))
                     [0 .. InitialBuckets (ht_conf ht) - 1]
                     (Inr (InitialBuckets (ht_conf ht) - 1))
        in case scan of
             Inl e \<Rightarrow> Some (Inl e)
           | Inr largestBucketNum \<Rightarrow>
               let ht2 = ht1\<lparr>numBuckets := largestBucketNum + 1\<rparr>;
                   usedSize = numBuckets ht2 * BucketSize (ht_conf ht)
               in if usedSize > Size ht2 then
                    (case EnsureSize (ht2\<lparr>Used := Size ht2\<rparr>) (usedSize - Size ht2) of
                       None \<Rightarrow> None
                     | Some ht3 \<Rightarrow> Some (Inr (ht3\<lparr>Used := usedSize\<rparr>)))
                  else Some (Inr (ht2\<lparr>Used := usedSize\<rparr>)))"

definition HashTable_Clear :: "HashTable \<Rightarrow> (error + HashTable) option" where
  "HashTable_Clear ht = calculateNumBuckets (DataFile_Clear ht)"

text \<open>A hash table on an empty file; clearing it gives the table of a new file.\<close>

definition closedHashTable :: "Config \<Rightarrow> HashTable" where
  "closedHashTable conf =
     \<lparr>Used = 0, Size = 0, Growth = HTFileGrowth conf, Buf = [],
      ht_conf = CalculateConfigConstants conf, numBuckets = 0\<rparr>"

section \<open>Partitions\<close>

text \<open>
  A \<open>Partition\<close> pairs the collection file with the lookup table from document
  identifiers to physical offsets. The locks are left out: the operations are modelled as
  they run under the partition's data lock.
\<close>

record Partition =
  col :: Collection
  lookup :: HashTable

definition Partition_Insert :: "Partition \<Rightarrow> go_int \<Rightarrow> byte list \<Rightarrow> ((error + int) \<times> Partition) option" where
  "Partition_Insert part id' data =
     (case Collection_Insert (col part) data of
        None \<Rightarrow> None
      | Some (Inl e, col') \<Rightarrow> Some (Inl e, part\<lparr>col := col'\<rparr>)
      | Some (Inr physID, col') \<Rightarrow>
          (case Put (lookup part) id' (word_of_int physID) of
             None \<Rightarrow> None
           | Some (Inl e) \<Rightarrow> Some (Inl e, part\<lparr>col := col'\<rparr>)
           | Some (Inr lookup') \<Rightarrow> Some (Inr physID, part\<lparr>col := col', lookup := lookup'\<rparr>)))"

definition Partition_Read :: "Partition \<Rightarrow> go_int \<Rightarrow> error + byte list" where
  "Partition_Read part id' =
     (case Get (lookup part) id' 1 of
        Inl e \<Rightarrow> Inl e
      | Inr [] \<Rightarrow> Inl ErrorNoDoc
      | Inr (physID # _) \<Rightarrow>
          (case Collection_Read (col part) (sint physID) of
             Inl e \<Rightarrow> Inl e
           | Inr None \<Rightarrow> Inl ErrorNoDoc
           | Inr (Some data) \<Rightarrow> Inr data))"

definition Partition_Update :: "Partition \<Rightarrow> go_int \<Rightarrow> byte list \<Rightarrow> (error option \<times> Partition) option" where
  "Partition_Update part id' data =
     (case Get (lookup part) id' 1 of
        Inl e \<Rightarrow> Some (Some e, part)
      | Inr [] \<Rightarrow> Some (Some ErrorNoDoc, part)
      | Inr (physID # _) \<Rightarrow>
          (case Collection_Update (col part) (sint physID) data of
             None \<Rightarrow> None
           | Some (Inl e, col') \<Rightarrow> Some (Some e, part\<lparr>col := col'\<rparr>)
           | Some (Inr newID, col') \<Rightarrow>
               if newID \<noteq> sint physID then
                 (case Remove (lookup part) id' physID of
                    Inl e \<Rightarrow> Some (Some e, part\<lparr>col := col'\<rparr>)
                  | Inr lookup1 \<Rightarrow>
                      (case Put lookup1 id' (word_of_int newID) of
                         None \<Rightarrow> None
                       | Some (Inl e) \<Rightarrow> Some (Some e, part\<lparr>col := col', lookup := lookup1\<rparr>)
                       | Some (Inr lookup2) \<Rightarrow> Some (None, part\<lparr>col := col', lookup := lookup2\<rparr>)))
               else Some (None, part\<lparr>col := col'\<rparr>)))"

definition Partition_Delete :: "Partition \<Rightarrow> go_int \<Rightarrow> error option \<times> Partition" where
  "Partition_Delete part id' =
     (case Get (lookup part) id' 1 of
        Inl e \<Rightarrow> (Some e, part)
      | Inr [] \<Rightarrow> (Some ErrorNoDoc, part)
      | Inr (physID # _) \<Rightarrow>
          (case Collection_Delete (col part) (sint physID) of
             (Some RuntimePanic, col') \<Rightarrow> (Some RuntimePanic, part\<lparr>col := col'\<rparr>)
           | (_, col') \<Rightarrow>
               (case Remove (lookup part) id' physID of
                  Inl e \<Rightarrow> (Some e, part\<lparr>col := col'\<rparr>)
                | Inr lookup' \<Rightarrow> (None, part\<lparr>col := col', lookup := lookup'\<rparr>))))"

text \<open>
  \<open>Partition.Clear\<close>, and a partition on two empty files; clearing it gives the
  partition that opening two new files gives.
\<close>

definition Partition_Clear :: "Partition \<Rightarrow> (error option \<times> Partition) option" where
  "Partition_Clear part =
     (case HashTable_Clear (lookup part) of
        None \<Rightarrow> None
      | Some (Inl e) \<Rightarrow> Some (Some e, part\<lparr>col := DataFile_Clear (col part)\<rparr>)
      | Some (Inr lookup') \<Rightarrow> Some (None, \<lparr>col = DataFile_Clear (col part), lookup = lookup'\<rparr>))"

definition closedPartition :: "Config \<Rightarrow> Partition" where
  "closedPartition conf = \<lparr>col = closedCollection conf, lookup = closedHashTable conf\<rparr>"

text \<open>A small configuration for running the operations on short buffers.\<close>

definition tinyConfig :: Config where
  "tinyConfig = CalculateConfigConstants
     \<lparr>DocMaxRoom = 4, ColFileGrowth = 32, PerBucket = 2, HTFileGrowth = 64, HashBits = 1,
      InitialBuckets = 0, Padding = [], LenPadding = 0, BucketSize = 0\<rparr>"

section \<open>Properties of collection files\<close>

lemma length_store:
  "0 \<le> lo \<Longrightarrow> nat lo + length bs \<le> length buf \<Longrightarrow> length (store buf lo bs) = length buf"
  by (simp add: store_def)

lemma nth_store:
  "0 \<le> lo \<Longrightarrow> nat lo + length bs \<le> length buf \<Longrightarrow> i < length buf \<Longrightarrow>
     store buf lo bs ! i =
       (if nat lo \<le> i \<and> i < nat lo + length bs then bs ! (i - nat lo) else buf ! i)"
  by (auto simp: store_def nth_append)

lemma EnsureSize_grows:
  assumes "0 < Growth f"
  shows "\<exists>k. EnsureSize f m =
              Some (f\<lparr>Buf := Buf f @ replicate k 0, Size := Size f + int k\<rparr>)
            \<and> Used f + m \<le> Size f + int k"
  using assms
proof (induction "nat (Used f + m - Size f)" arbitrary: f rule: less_induct)
  case less
  show ?case
  proof (cases "Used f + m \<le> Size f")
    case True
    then have "EnsureSize f m = Some f" by (subst EnsureSize.simps) simp
    then show ?thesis using True by (intro exI [of _ 0]) simp
  next
    case False
    let ?f' = "f\<lparr>Buf := Buf f @ replicate (nat (Growth f)) 0, Size := Size f + Growth f\<rparr>"
    have "nat (Used ?f' + m - Size ?f') < nat (Used f + m - Size f)"
      using False less.prems by simp
    moreover have "0 < Growth ?f'" using less.prems by simp
    ultimately obtain k where k: "EnsureSize ?f' m =
              Some (?f'\<lparr>Buf := Buf ?f' @ replicate k 0, Size := Size ?f' + int k\<rparr>)"
            "Used ?f' + m \<le> Size ?f' + int k"
      using less.hyps [of ?f'] by blast
    have "EnsureSize f m = EnsureSize ?f' m"
      using False by (subst EnsureSize.simps) simp
    then show ?thesis using k less.prems
      by (intro exI [of _ "nat (Growth f) + k"]) (simp add: replicate_add)
  qed
qed

lemma write_padding_spaces:
  assumes "Padding conf = replicate 128 0x20" and "LenPadding conf = 128"
    and "0 \<le> p" and "p \<le> e" and "e \<le> int (length buf)"
  shows "\<exists>buf'. write_padding conf buf p e = Some (Some buf') \<and> length buf' = length buf \<and>
     (\<forall>i < length buf. buf' ! i = (if nat p \<le> i \<and> i < nat e then 0x20 else buf ! i))"
  using assms(3-5)
proof (induction "nat (e - p)" arbitrary: buf p rule: less_induct)
  case less
  show ?case
  proof (cases "p < e")
    case False
    then have "write_padding conf buf p e = Some (Some buf)"
      by (subst write_padding.simps) simp
    then show ?thesis using False less.prems by auto
  next
    case True
    define cs where "cs = (if p + 128 \<ge> e then e - p else 128)"
    define buf1 where "buf1 = store buf p (replicate (nat cs) 0x20)"
    have cs: "0 < cs" "cs \<le> 128" "p + cs \<le> e" using True by (auto simp: cs_def)
    have ncs: "nat cs \<le> 128" using cs by simp
    have c: "copy_slice buf p (p + cs) (Padding conf) = Some buf1"
      using less.prems cs ncs by (simp add: copy_slice_def valid_slice_def assms(1) buf1_def min_def)
    have l1: "length buf1 = length buf"
      using less.prems cs by (simp add: buf1_def length_store)
    have n1: "\<forall>i < length buf. buf1 ! i = (if nat p \<le> i \<and> i < nat (p + cs) then 0x20 else buf ! i)"
      using less.prems cs by (auto simp: buf1_def nth_store)
    have "write_padding conf buf p e =
        (case copy_slice buf p (p + cs) (Padding conf) of None \<Rightarrow> Some None
         | Some buf' \<Rightarrow> write_padding conf buf' (p + 128) e)"
      using True by (subst write_padding.simps) (simp add: assms(2) cs_def Let_def cong: option.case_cong)
    then have step: "write_padding conf buf p e = write_padding conf buf1 (p + 128) e"
      by (simp add: c)
    show ?thesis
    proof (cases "p + 128 \<ge> e")
      case True
      then have "write_padding conf buf1 (p + 128) e = Some (Some buf1)"
        by (subst write_padding.simps) simp
      moreover have "p + cs = e" using True by (simp add: cs_def)
      ultimately show ?thesis using step l1 n1 by auto
    next
      case False
      then have cs128: "cs = 128" by (simp add: cs_def)
      have "nat (e - (p + 128)) < nat (e - p)" using False by simp
      then obtain buf' where b: "write_padding conf buf1 (p + 128) e = Some (Some buf')"
          "length buf' = length buf1"
          "\<forall>i < length buf1. buf' ! i = (if nat (p + 128) \<le> i \<and> i < nat e then 0x20 else buf1 ! i)"
        using less.hyps [of "p + 128" buf1] less.prems False l1 by auto
      show ?thesis using step b l1 n1 cs128 less.prems False by auto
    qed
  qed
qed

text \<open>
  A well-formed collection file: the watermark lies within the file, the buffer maps the
  whole file, the file can grow, the derived configuration fields are the calculated ones
  and \<open>DocMaxRoom\<close> is a 64-bit \<open>int\<close>.
\<close>

definition Collection_ok :: "Collection \<Rightarrow> bool" where
  "Collection_ok c \<longleftrightarrow>
     0 \<le> Used c \<and> Used c \<le> Size c \<and> Size c = int (length (Buf c)) \<and>
     0 < Growth c \<and> col_conf c = CalculateConfigConstants (col_conf c) \<and>
     DocMaxRoom (col_conf c) < 2 ^ 63"

lemma Calculated_padding:
  "conf = CalculateConfigConstants conf \<Longrightarrow> Padding conf = replicate 128 0x20 \<and> LenPadding conf = 128"
proof -
  assume a: "conf = CalculateConfigConstants conf"
  have "Padding (CalculateConfigConstants conf) = replicate 128 0x20"
    and "LenPadding (CalculateConfigConstants conf) = 128"
    by (simp_all add: CalculateConfigConstants_def)
  then show ?thesis using arg_cong [OF a, of Padding] arg_cong [OF a, of LenPadding] by simp
qed

lemma prefix_by_nth:
  assumes "length xs \<le> length ys" and "\<forall>i < length xs. ys ! i = xs ! i"
  shows "\<exists>rest. ys = xs @ rest"
proof -
  have "take (length xs) ys = xs"
    using assms by (intro nth_equalityI) simp_all
  then have "ys = xs @ drop (length xs) ys"
    by (metis append_take_drop_id)
  then show ?thesis ..
qed

text \<open>The reserved region of a new record: the payload and as many spaces again.\<close>

definition doc_bytes :: "byte list \<Rightarrow> byte list" where
  "doc_bytes data = data @ replicate (length data) 0x20"

lemma sint_word_of_int: "- (2 ^ 63) \<le> r \<Longrightarrow> r < 2 ^ 63 \<Longrightarrow> sint (word_of_int r :: go_int) = r"
  by (simp add: sint_sbintrunc' signed_take_bit_int_eq_self)

lemma Collection_Insert_ok:
  assumes ok: "Collection_ok c" and fits: "2 * int (length data) \<le> DocMaxRoom (col_conf c)"
  shows "\<exists>c'. Collection_Insert c data = Some (Inr (Used c), c') \<and>
           Collection_ok c' \<and> col_conf c' = col_conf c \<and>
           Used c' = Used c + DocHeader + 2 * int (length data) \<and>
           length (Buf c) \<le> length (Buf c') \<and>
           (\<forall>i < nat (Used c). Buf c' ! i = Buf c ! i) \<and>
           Buf c' ! nat (Used c) = 1 \<and>
           (\<exists>rest. take 10 (drop (nat (Used c) + 1) (Buf c')) =
                     PutVarint (word_of_int (2 * int (length data))) @ rest) \<and>
           take (2 * length data) (drop (nat (Used c) + 11) (Buf c')) = doc_bytes data"
proof -
  define n where "n = length data"
  define u where "u = nat (Used c)"
  define pv where "pv = PutVarint (word_of_int (2 * int n) :: go_int)"
  have U: "Used c = int u" using ok by (simp add: u_def Collection_ok_def)
  have pad: "Padding (col_conf c) = replicate 128 0x20" "LenPadding (col_conf c) = 128"
    using ok Calculated_padding [of "col_conf c"] by (simp_all add: Collection_ok_def)
  obtain k where k: "EnsureSize c (DocHeader + 2 * int n) =
        Some (c\<lparr>Buf := Buf c @ replicate k 0, Size := Size c + int k\<rparr>)"
     "Used c + (DocHeader + 2 * int n) \<le> Size c + int k"
    using EnsureSize_grows [of c "DocHeader + 2 * int n"] ok
    by (auto simp: Collection_ok_def)
  define b0 where "b0 = Buf c @ replicate k 0"
  have L0: "length b0 = length (Buf c) + k" by (simp add: b0_def)
  have room: "u + 11 + 2 * n \<le> length b0"
    using k(2) ok U by (simp add: Collection_ok_def DocHeader_def L0)
  define b1 where "b1 = b0[u := 1]"
  have s1: "set_byte b0 (int u) 1 = Some b1"
    using room by (simp add: set_byte_def valid_index_def b1_def)
  have pvl: "length pv \<le> 10" "0 < length pv"
    unfolding pv_def by (rule PutVarint_length, rule PutVarint_nonempty)
  define b2 where "b2 = store b1 (int u + 1) pv"
  have s2: "PutVarint_slice b1 (int u + 1) (int u + 11) (word_of_int (2 * int n)) = Some b2"
    using room pvl by (simp add: PutVarint_slice_def valid_slice_def b1_def b2_def pv_def)
  have L2: "length b2 = length b0"
    using room pvl by (simp add: b2_def b1_def length_store nat_add_distrib)
  define b3 where "b3 = store b2 (int u + 11) data"
  have s3: "copy_slice b2 (int u + DocHeader) (int u + DocHeader + 2 * int n) data = Some b3"
    using room L2 by (simp add: copy_slice_def valid_slice_def b3_def DocHeader_def n_def)
  have L3: "length b3 = length b0"
    using room L2 by (simp add: b3_def length_store nat_add_distrib n_def)
  obtain b4 where b4: "write_padding (col_conf c) b3 (int u + 11 + int n) (int u + 11 + 2 * int n) = Some (Some b4)"
     "length b4 = length b3"
     "\<forall>i < length b3. b4 ! i = (if nat (int u + 11 + int n) \<le> i \<and> i < nat (int u + 11 + 2 * int n) then 0x20 else b3 ! i)"
    using write_padding_spaces [OF pad, of "int u + 11 + int n" "int u + 11 + 2 * int n" b3] room L3
    by auto
  define c' where "c' = c\<lparr>Buf := b4, Size := Size c + int k, Used := int u + DocHeader + 2 * int n\<rparr>"
  have ins: "Collection_Insert c data = Some (Inr (Used c), c')"
    using fits k(1) s1 s2 s3 b4(1)
    by (simp add: Collection_Insert_def Let_def n_def [symmetric] U [symmetric] b0_def [symmetric] c'_def DocHeader_def
        add.assoc)
  have n1: "\<forall>i < length b0. b1 ! i = (if i = u then 1 else b0 ! i)"
    by (simp add: b1_def)
  have L1: "length b1 = length b0" by (simp add: b1_def)
  have n2: "\<forall>i < length b0. b2 ! i = (if u + 1 \<le> i \<and> i < u + 1 + length pv then pv ! (i - (u + 1)) else b1 ! i)"
    using room pvl L1 by (simp add: b2_def nth_store nat_add_distrib)
  have n3: "\<forall>i < length b0. b3 ! i = (if u + 11 \<le> i \<and> i < u + 11 + n then data ! (i - (u + 11)) else b2 ! i)"
    using room L2 by (simp add: b3_def nth_store nat_add_distrib n_def)
  have n4: "\<forall>i < length b0. b4 ! i = (if u + 11 + n \<le> i \<and> i < u + 11 + 2 * n then 0x20 else b3 ! i)"
    using b4(3) L3 by (simp add: nat_add_distrib nat_mult_distrib)
  have L4: "length b4 = length b0" using b4(2) L3 by simp
  have ok': "Collection_ok c'"
    using ok k(2) L4 L0 U by (simp add: Collection_ok_def c'_def DocHeader_def)
  have pre: "\<forall>i < u. Buf c' ! i = Buf c ! i"
  proof (intro allI impI)
    fix i assume "i < u"
    moreover have "u \<le> length (Buf c)" using ok U by (simp add: Collection_ok_def)
    ultimately show "Buf c' ! i = Buf c ! i"
      using n1 n2 n3 n4 room by (simp add: c'_def b0_def nth_append)
  qed
  have flag: "Buf c' ! u = 1"
    using n1 n2 n3 n4 room by (simp add: c'_def)
  have hdr: "\<exists>rest. take 10 (drop (u + 1) (Buf c')) = pv @ rest"
  proof (rule prefix_by_nth)
    show "length pv \<le> length (take 10 (drop (u + 1) (Buf c')))"
      using pvl room L4 by (simp add: c'_def)
    show "\<forall>i < length pv. take 10 (drop (u + 1) (Buf c')) ! i = pv ! i"
      using pvl room L4 n1 n2 n3 n4 by (simp add: c'_def)
  qed
  have doc: "take (2 * n) (drop (u + 11) (Buf c')) = doc_bytes data"
  proof (rule nth_equalityI)
    show "length (take (2 * n) (drop (u + 11) (Buf c'))) = length (doc_bytes data)"
      using room L4 by (simp add: c'_def doc_bytes_def n_def)
    show "take (2 * n) (drop (u + 11) (Buf c')) ! i = doc_bytes data ! i"
      if "i < length (take (2 * n) (drop (u + 11) (Buf c')))" for i
      using that room L4 n1 n2 n3 n4 pvl
      by (auto simp: c'_def doc_bytes_def n_def nth_append)
  qed
  show ?thesis
    using ins ok' pre flag hdr [unfolded pv_def] doc L4 L0
    by (intro exI [of _ c']) (simp add: c'_def u_def [symmetric] n_def [symmetric] U)
qed


lemma Varint_slice_prefix:
  assumes "0 \<le> lo" and "hi = lo + 10" and "hi \<le> int (length buf)"
    and "take 10 (drop (nat lo) buf) = PutVarint x @ rest"
  shows "\<exists>n. Varint_slice buf lo hi = Some (x, n)"
proof -
  have "get_slice buf lo hi = Some (PutVarint x @ rest)"
    using assms by (simp add: get_slice_def valid_slice_def)
  then have "Varint_slice buf lo hi = Some (Varint (PutVarint x @ rest))"
    by (simp add: Varint_slice_def)
  then show ?thesis using Varint_PutVarint [of x rest]
    by (cases "Varint (PutVarint x @ rest)") auto
qed

text \<open>
  Claim C5, as amended. On a well-formed collection, \<open>Insert\<close> of a payload with
  \<open>2 * len(data) \<le> DocMaxRoom\<close> returns \<open>id = Used\<close>, and an immediately following
  \<open>Read(id)\<close> returns the whole reserved region, that is the payload followed by
  \<open>len(data)\<close> bytes of space padding, provided the record does not end exactly at the
  end of the file; when it does, \<open>Read(id)\<close> returns nothing.
\<close>

theorem Insert_then_Read:
  assumes "Collection_ok c" and "2 * int (length data) \<le> DocMaxRoom (col_conf c)"
  shows "\<exists>c'. Collection_Insert c data = Some (Inr (Used c), c') \<and>
           Collection_Read c' (Used c) =
             (if Used c' < Size c' then Inr (Some (data @ replicate (length data) 0x20))
              else Inr None)"
proof -
  obtain c' rest where c':
      "Collection_Insert c data = Some (Inr (Used c), c')"
      "Collection_ok c'" "col_conf c' = col_conf c"
      "Used c' = Used c + DocHeader + 2 * int (length data)"
      "Buf c' ! nat (Used c) = 1"
      "take 10 (drop (nat (Used c) + 1) (Buf c')) =
         PutVarint (word_of_int (2 * int (length data))) @ rest"
      "take (2 * length data) (drop (nat (Used c) + 11) (Buf c')) = doc_bytes data"
    using Collection_Insert_ok [OF assms] by blast
  define u where "u = Used c"
  define r where "r = 2 * int (length data)"
  have u0: "0 \<le> u" using assms(1) by (simp add: u_def Collection_ok_def)
  have len: "u + 11 + r \<le> int (length (Buf c'))"
    using c'(2,4) by (simp add: Collection_ok_def u_def r_def DocHeader_def)
  have r63: "r < 2 ^ 63" using assms c'(2,3) by (simp add: Collection_ok_def r_def)
  have flag: "get_byte (Buf c') u = Some 1"
    using c'(5) u0 len by (simp add: get_byte_def valid_index_def u_def r_def)
  obtain n where hdr: "Varint_slice (Buf c') (u + 1) (u + 11) = Some (word_of_int r, n)"
    using Varint_slice_prefix [of "u + 1" "u + 11" "Buf c'" "word_of_int r" rest] u0 len c'(6)
    by (auto simp: u_def r_def nat_add_distrib)
  have sr: "sint (word_of_int r :: go_int) = r"
    using r63 by (intro sint_word_of_int) (simp_all add: r_def)
  have doc: "get_slice (Buf c') (u + DocHeader) (u + DocHeader + r) = Some (doc_bytes data)"
    using u0 len c'(7) by (simp add: get_slice_def valid_slice_def DocHeader_def u_def r_def nat_add_distrib
        nat_mult_distrib)
  have r0: "0 \<le> r" by (simp add: r_def)
  have "Collection_Read c' u =
          (if Used c' < Size c' then Inr (Some (doc_bytes data)) else Inr None)"
    using u0 r0 c'(3,4) assms(2) flag hdr sr doc
    by (simp add: Collection_Read_def Let_def u_def [symmetric] r_def [symmetric] DocHeader_def)
  then show ?thesis using c'(1) by (auto simp: u_def doc_bytes_def)
qed

theorem Insert_then_Read_witness:
  "Collection_ok (newCollection tinyConfig) \<and>
   2 * int (length [97 :: byte]) \<le> DocMaxRoom (col_conf (newCollection tinyConfig)) \<and>
   (\<exists>c'. Collection_Insert (newCollection tinyConfig) [97] = Some (Inr 0, c') \<and>
         Collection_Read c' 0 = Inr (Some [97, 32]))"
proof -
  have h1: "Collection_ok (newCollection tinyConfig)"
    unfolding Collection_ok_def by code_simp
  have h2: "2 * int (length [97 :: byte]) \<le> DocMaxRoom (col_conf (newCollection tinyConfig))"
    by code_simp
  have e: "map_option (\<lambda>(r, c'). (Used c', Size c')) (Collection_Insert (newCollection tinyConfig) [97])
             = Some (13, 32)"
    by code_simp
  have u: "Used (newCollection tinyConfig) = 0" by code_simp
  show ?thesis using h1 h2 Insert_then_Read [OF h1 h2] e u by auto
qed

text \<open>
  Claim C5 as stated fails: after inserting the one byte \<open>a\<close> into a new collection,
  \<open>Read\<close> returns \<open>a\<close> and a space, not the byte alone; and in a file of 13 bytes, which
  the record fills, \<open>Read\<close> returns nothing.
\<close>

theorem Read_after_Insert_is_padded:
  "(case Collection_Insert (newCollection tinyConfig) [97] of
      Some (Inr id', c') \<Rightarrow>
        Collection_Read c' id' = Inr (Some [97, 32]) \<and> Collection_Read c' id' \<noteq> Inr (Some [97])
    | _ \<Rightarrow> False) \<and>
   (case Collection_Insert (DataFile_Clear ((closedCollection tinyConfig)\<lparr>Growth := 13\<rparr>)) [97] of
      Some (Inr id', c') \<Rightarrow> Collection_Read c' id' = Inr None
    | _ \<Rightarrow> False)"
  by code_simp

text \<open>
  Claim C2 at its failing input: an empty document inserted last has
  \<open>id = Used - DocHeader\<close>; \<open>Read\<close> accepts this identifier and returns the empty
  payload, \<open>Update\<close> rejects it with \<open>ErrorNoDoc\<close>.
\<close>

theorem Update_rejects_last_empty_document:
  "(case Collection_Insert (newCollection tinyConfig) [] of
      Some (Inr id', c') \<Rightarrow>
        id' = Used c' - DocHeader \<and> Collection_Read c' id' = Inr (Some []) \<and>
        map_option fst (Collection_Update c' id' []) = Some (Inl ErrorNoDoc)
    | _ \<Rightarrow> False)"
  by code_simp



text \<open>A partition holding one document, \<open>ab\<close> under the identifier 7.\<close>

definition demoPartition :: Partition where
  "demoPartition =
     (case Partition_Clear (closedPartition tinyConfig) of
        Some (None, part0) \<Rightarrow>
          (case Partition_Insert part0 7 [97, 98] of
             Some (Inr physID, part1) \<Rightarrow> part1
           | _ \<Rightarrow> part0)
      | _ \<Rightarrow> closedPartition tinyConfig)"



text \<open>
  Claim C1 at its failing input: with \<open>DocMaxRoom = 4\<close>, a document of one byte is
  inserted under the identifier 1 and then updated with three bytes. The data is longer
  than the room of 2 and its doubled length exceeds \<open>DocMaxRoom\<close>: \<open>Collection.Update\<close>
  has tombstoned the record when the insertion fails with \<open>ErrorDocTooLarge\<close>, and
  \<open>Partition.Update\<close> returns the error with the lookup entry \<open>(1, 0)\<close> still live and
  the flag byte at offset 0 equal to 0.
\<close>

theorem failed_Update_leaves_dangling_lookup:
  "(case Partition_Clear (closedPartition tinyConfig) of
      Some (None, part0) \<Rightarrow>
        (case Partition_Insert part0 1 [97] of
           Some (Inr physID, part1) \<Rightarrow>
             (case Partition_Update part1 1 [97, 98, 99] of
                Some (Some e, part2) \<Rightarrow>
                  physID = 0 \<and> e = ErrorDocTooLarge \<and> Get (lookup part2) 1 1 = Inr [0] \<and>
                  get_byte (Buf (col part2)) 0 = Some 0
              | _ \<Rightarrow> False)
         | _ \<Rightarrow> False)
    | _ \<Rightarrow> False)"
  by code_simp

section \<open>Bucket chains\<close>

text \<open>\<open>follow ht n bucket\<close> applies \<open>nextBucket\<close> \<open>n\<close> times, starting at \<open>bucket\<close>.\<close>

fun follow :: "HashTable \<Rightarrow> nat \<Rightarrow> int \<Rightarrow> error + int" where
  "follow ht 0 bucket = Inr bucket"
| "follow ht (Suc n) bucket =
     (case nextBucket ht bucket of Inl e \<Rightarrow> Inl e | Inr next \<Rightarrow> follow ht n next)"

text \<open>
  The buckets that the table counts lie within the mapped file: there is at least one
  bucket, a bucket holds at least its header, and \<open>numBuckets\<close> buckets fit into the
  buffer. Nothing is assumed about the bytes.
\<close>

definition buckets_mapped :: "HashTable \<Rightarrow> bool" where
  "buckets_mapped ht \<longleftrightarrow>
     1 \<le> numBuckets ht \<and> BucketHeader \<le> BucketSize (ht_conf ht) \<and>
     numBuckets ht * BucketSize (ht_conf ht) \<le> int (length (Buf ht))"

lemma nextBucket_no_panic:
  assumes "buckets_mapped ht" and "0 \<le> bucket"
  shows "\<exists>next. nextBucket ht bucket = Inr next"
proof (cases "bucket \<ge> numBuckets ht")
  case True
  then show ?thesis by (simp add: nextBucket_def)
next
  case False
  define bs where "bs = BucketSize (ht_conf ht)"
  have "10 \<le> bs" "numBuckets ht * bs \<le> int (length (Buf ht))"
    using assms(1) by (simp_all add: buckets_mapped_def bs_def BucketHeader_def)
  moreover have "bucket + 1 \<le> numBuckets ht" using False by simp
  then have "(bucket + 1) * bs \<le> numBuckets ht * bs"
    using \<open>10 \<le> bs\<close> by (intro mult_right_mono) simp_all
  moreover have "0 \<le> bucket * bs" using assms(2) \<open>10 \<le> bs\<close> by simp
  ultimately have "valid_slice (Buf ht) (bucket * bs) (bucket * bs + 10)"
    by (simp add: valid_slice_def algebra_simps)
  then show ?thesis
    by (auto simp: nextBucket_def Let_def Varint_slice_def get_slice_def bs_def split: prod.splits)
qed

lemma follow_reaches_end:
  assumes "buckets_mapped ht" and "0 \<le> bucket" and "bucket < numBuckets ht"
  shows "\<exists>n. 0 < n \<and> n \<le> nat (numBuckets ht - bucket) \<and> follow ht n bucket = Inr 0"
  using assms(2,3)
proof (induction "nat (numBuckets ht - bucket)" arbitrary: bucket rule: less_induct)
  case less
  obtain nb where nb: "nextBucket ht bucket = Inr nb"
    using nextBucket_no_panic [OF assms(1) less.prems(1)] by blast
  show ?case
  proof (cases "nb = 0")
    case True
    then have "follow ht 1 bucket = Inr 0" using nb by simp
    then show ?thesis using less.prems by (intro exI [of _ 1]) simp
  next
    case False
    then have inc: "bucket < nb" "nb < numBuckets ht"
      using nextBucket_increases [OF nb] by simp_all
    then obtain n where n: "0 < n" "n \<le> nat (numBuckets ht - nb)" "follow ht n nb = Inr 0"
      using less.hyps [of nb] less.prems by fastforce
    have "follow ht (Suc n) bucket = Inr 0" using nb n(3) by simp
    then show ?thesis using n(2) inc by (intro exI [of _ "Suc n"]) simp
  qed
qed

lemma lastBucket_returns:
  assumes "buckets_mapped ht" and "0 \<le> bucket"
  shows "\<exists>l. lastBucket ht bucket = Inr l \<and> bucket \<le> l"
  using assms(2)
proof (induction "nat (numBuckets ht - bucket)" arbitrary: bucket rule: less_induct)
  case less
  obtain nb where nb: "nextBucket ht bucket = Inr nb"
    using nextBucket_no_panic [OF assms(1) less.prems(1)] by blast
  show ?case
  proof (cases "nb = 0")
    case True
    then show ?thesis using nb by simp
  next
    case False
    then have inc: "bucket < nb" "nb < numBuckets ht"
      using nextBucket_increases [OF nb] by simp_all
    then obtain l where "lastBucket ht nb = Inr l" "nb \<le> l"
      using less.hyps [of nb] less.prems by fastforce
    then show ?thesis using nb False inc by simp
  qed
qed

text \<open>
  Claim C7. Whatever bytes the buffer holds, from every bucket number \<open>b \<ge> 0\<close> the
  sequence \<open>b, nextBucket(b), nextBucket(nextBucket(b)), \<dots>\<close> reaches 0 after at least
  one and at most \<open>numBuckets\<close> steps; every non-zero result of \<open>nextBucket\<close> is
  greater than its argument and less than \<open>numBuckets\<close>; and \<open>lastBucket(b)\<close> returns.
\<close>

theorem bucket_chain_ends:
  assumes "buckets_mapped ht" and "0 \<le> bucket"
  shows "(\<exists>n. 0 < n \<and> n \<le> nat (numBuckets ht) \<and> follow ht n bucket = Inr 0) \<and>
         (\<forall>next. nextBucket ht bucket = Inr next \<and> next \<noteq> 0 \<longrightarrow>
                   bucket < next \<and> next < numBuckets ht) \<and>
         (\<exists>l. lastBucket ht bucket = Inr l)"
proof (intro conjI)
  show "\<exists>n. 0 < n \<and> n \<le> nat (numBuckets ht) \<and> follow ht n bucket = Inr 0"
  proof (cases "bucket < numBuckets ht")
    case True
    then obtain n where "0 < n" "n \<le> nat (numBuckets ht - bucket)" "follow ht n bucket = Inr 0"
      using follow_reaches_end [OF assms] by blast
    then show ?thesis using assms(2) by (intro exI [of _ n]) simp
  next
    case False
    then have "follow ht 1 bucket = Inr 0" by (simp add: nextBucket_def)
    moreover have "1 \<le> numBuckets ht" using assms(1) by (simp add: buckets_mapped_def)
    then have "1 \<le> nat (numBuckets ht)" by linarith
    ultimately show ?thesis by (intro exI [of _ 1]) simp
  qed
  show "\<forall>next. nextBucket ht bucket = Inr next \<and> next \<noteq> 0 \<longrightarrow>
                   bucket < next \<and> next < numBuckets ht"
    using nextBucket_increases by blast
  show "\<exists>l. lastBucket ht bucket = Inr l"
    using lastBucket_returns [OF assms] by blast
qed

text \<open>
  A table of three buckets whose first bucket links to the third and whose other bytes are
  all \<open>0xff\<close>.
\<close>

definition corruptTable :: HashTable where
  "corruptTable =
     \<lparr>Used = 156, Size = 156, Growth = 64,
      Buf = [4] @ replicate 51 0xff @ [2] @ replicate 51 0xff @ replicate 52 0xff,
      ht_conf = tinyConfig, numBuckets = 3\<rparr>"

theorem bucket_chain_ends_witness:
  "buckets_mapped corruptTable \<and> (0::int) \<le> 0 \<and>
   nextBucket corruptTable 0 = Inr 2 \<and> follow corruptTable 2 0 = Inr 0 \<and>
   lastBucket corruptTable 0 = Inr 2 \<and> nextBucket corruptTable 1 = Inr 0"
proof -
  have h1: "buckets_mapped corruptTable" unfolding buckets_mapped_def by code_simp
  have h2: "(0::int) \<le> 0" by simp
  have e: "nextBucket corruptTable 0 = Inr 2" "follow corruptTable 2 0 = Inr 0"
    "lastBucket corruptTable 0 = Inr 2" "nextBucket corruptTable 1 = Inr 0"
    by code_simp+
  show ?thesis using h1 h2 e bucket_chain_ends [OF h1 h2] by simp
qed

section \<open>The chain walk of a hash table\<close>

text \<open>
  \<open>Put\<close>, \<open>Get\<close> and \<open>Remove\<close> visit the same sequence of entries: from entry 0 of
  the head bucket through the buckets of the chain. \<open>coords\<close> is that sequence as a list of
  (bucket, entry) pairs, and the three loops are functions of the list of entries read along
  it.
\<close>

declare Get_loop.simps [simp del] Remove_loop.simps [simp del]

definition in_table :: "HashTable \<Rightarrow> int \<Rightarrow> int \<Rightarrow> bool" where
  "in_table ht bucket entry \<longleftrightarrow>
     0 \<le> bucket \<and> bucket < numBuckets ht \<and> 0 \<le> entry \<and> entry < PerBucket (ht_conf ht)"

definition layout_ok :: "HashTable \<Rightarrow> bool" where
  "layout_ok ht \<longleftrightarrow>
     ht_conf ht = CalculateConfigConstants (ht_conf ht) \<and>
     1 \<le> PerBucket (ht_conf ht) \<and>
     0 < InitialBuckets (ht_conf ht) \<and>
     InitialBuckets (ht_conf ht) \<le> numBuckets ht \<and>
     numBuckets ht * BucketSize (ht_conf ht) \<le> int (length (Buf ht))"

lemma Calculated_BucketSize:
  "conf = CalculateConfigConstants conf \<Longrightarrow> BucketSize conf = 10 + PerBucket conf * 21"
proof -
  assume a: "conf = CalculateConfigConstants conf"
  have "BucketSize (CalculateConfigConstants conf) = 10 + PerBucket conf * 21"
    by (simp add: CalculateConfigConstants_def BucketHeader_def EntrySize_def)
  then show ?thesis using arg_cong [OF a, of BucketSize] by simp
qed

lemma layout_BucketSize: "layout_ok ht \<Longrightarrow> BucketSize (ht_conf ht) = 10 + PerBucket (ht_conf ht) * 21"
  by (simp add: layout_ok_def Calculated_BucketSize)

lemma layout_mapped: "layout_ok ht \<Longrightarrow> buckets_mapped ht"
  using layout_BucketSize [of ht]
  by (auto simp: layout_ok_def buckets_mapped_def BucketHeader_def)

lemma mult_le_next: "(b::int) < b' \<Longrightarrow> 0 \<le> s \<Longrightarrow> (b + 1) * s \<le> b' * s"
  by (intro mult_right_mono) simp_all

lemma entry_addr_bounds:
  assumes "layout_ok ht" and "in_table ht b e"
  shows "b * BucketSize (ht_conf ht) + 10 \<le> entry_addr ht b e"
    and "entry_addr ht b e + 21 \<le> (b + 1) * BucketSize (ht_conf ht)"
    and "0 \<le> entry_addr ht b e"
    and "entry_addr ht b e + 21 \<le> int (length (Buf ht))"
proof -
  define s where "s = BucketSize (ht_conf ht)"
  define p where "p = PerBucket (ht_conf ht)"
  have s: "s = 10 + p * 21" using assms(1) by (simp add: s_def p_def layout_BucketSize)
  have e: "0 \<le> e" "e < p" "0 \<le> b" "b < numBuckets ht"
    using assms(2) by (simp_all add: in_table_def p_def)
  have a: "entry_addr ht b e = b * s + 10 + e * 21"
    by (simp add: entry_addr_def s_def BucketHeader_def EntrySize_def)
  show 1: "b * BucketSize (ht_conf ht) + 10 \<le> entry_addr ht b e"
    using e by (simp add: a s_def [symmetric])
  show 2: "entry_addr ht b e + 21 \<le> (b + 1) * BucketSize (ht_conf ht)"
    using e s by (simp add: a s_def [symmetric] algebra_simps)
  have "0 \<le> b * s" using e s by simp
  then show "0 \<le> entry_addr ht b e" using e by (simp add: a)
  have "(b + 1) * s \<le> numBuckets ht * s"
    using e s by (intro mult_le_next) simp_all
  moreover have "numBuckets ht * s \<le> int (length (Buf ht))"
    using assms(1) by (simp add: layout_ok_def s_def)
  ultimately show "entry_addr ht b e + 21 \<le> int (length (Buf ht))"
    using 2 by (simp add: s_def)
qed

text \<open>reading an entry\<close>

definition read_entry :: "byte list \<Rightarrow> int \<Rightarrow> byte \<times> go_int \<times> go_int" where
  "read_entry buf a =
     (buf ! nat a, fst (Varint (take 10 (drop (nat (a + 1)) buf))),
      fst (Varint (take 10 (drop (nat (a + 11)) buf))))"

lemma read_entry_parts:
  assumes "0 \<le> a" and "a + 21 \<le> int (length buf)" and "read_entry buf a = (f, k, v)"
  shows "get_byte buf a = Some f"
    and "\<exists>n. Varint_slice buf (a + 1) (a + 11) = Some (k, n)"
    and "\<exists>n. Varint_slice buf (a + 11) (a + 21) = Some (v, n)"
  using assms
  by (auto simp: read_entry_def get_byte_def valid_index_def Varint_slice_def get_slice_def
      valid_slice_def prod_eq_iff)

function coords :: "HashTable \<Rightarrow> int \<Rightarrow> int \<Rightarrow> (int \<times> int) list" where
  "coords ht entry bucket =
     (case Varint_slice (Buf ht) (entry_addr ht bucket entry + 11) (entry_addr ht bucket entry + 21) of
        None \<Rightarrow> []
      | Some v \<Rightarrow> (bucket, entry) #
          (case next_entry ht entry bucket of
             Inr (Some (entry', bucket')) \<Rightarrow> coords ht entry' bucket'
           | _ \<Rightarrow> []))"
  by pat_completeness auto
termination
  by (relation "inv_image walk_rel (\<lambda>(ht, entry, bucket). (ht, entry, bucket))")
     (auto simp: wf_walk_rel intro: next_entry_measure)

declare coords.simps [simp del]

lemma next_entry_in_table:
  assumes "layout_ok ht" and "in_table ht b e"
  shows "(\<exists>nb. next_entry ht e b = (if e + 1 = PerBucket (ht_conf ht)
            then (if nb = 0 then Inr None else Inr (Some (0, nb)))
            else Inr (Some (e + 1, b)))
          \<and> nextBucket ht b = Inr nb \<and> (nb = 0 \<or> (b < nb \<and> nb < numBuckets ht)))"
proof -
  have "0 \<le> b" using assms(2) by (simp add: in_table_def)
  then obtain nb where nb: "nextBucket ht b = Inr nb"
    using nextBucket_no_panic [OF layout_mapped [OF assms(1)]] by blast
  then have "nb = 0 \<or> (b < nb \<and> nb < numBuckets ht)"
    using nextBucket_increases [OF nb] by blast
  then show ?thesis using nb by (auto simp: next_entry_def intro!: exI [of _ nb])
qed

lemma next_entry_cases:
  assumes "layout_ok ht" and "in_table ht b e"
  obtains (last) "next_entry ht e b = Inr None"
  | (step) e' b' where "next_entry ht e b = Inr (Some (e', b'))" "in_table ht b' e'"
      "b < b' \<or> (b' = b \<and> e < e')"
proof -
  obtain nb where nb: "next_entry ht e b = (if e + 1 = PerBucket (ht_conf ht)
            then (if nb = 0 then Inr None else Inr (Some (0, nb)))
            else Inr (Some (e + 1, b)))" "nb = 0 \<or> (b < nb \<and> nb < numBuckets ht)"
    using next_entry_in_table [OF assms] by blast
  show ?thesis
  proof (cases "e + 1 = PerBucket (ht_conf ht)")
    case True
    show ?thesis
    proof (cases "nb = 0")
      case True
      then show ?thesis using nb \<open>e + 1 = PerBucket (ht_conf ht)\<close> last by simp
    next
      case False
      then have "in_table ht nb 0" using nb(2) assms by (simp add: in_table_def)
      then show ?thesis using nb False True step [of 0 nb] by simp
    qed
  next
    case False
    then have "in_table ht b (e + 1)" using assms(2) by (simp add: in_table_def)
    then show ?thesis using nb False step [of "e + 1" b] by simp
  qed
qed

lemma coords_unfold:
  assumes "layout_ok ht" and "in_table ht b e"
  shows "coords ht e b = (b, e) #
          (case next_entry ht e b of Inr (Some (e', b')) \<Rightarrow> coords ht e' b' | _ \<Rightarrow> [])"
proof -
  have "valid_slice (Buf ht) (entry_addr ht b e + 11) (entry_addr ht b e + 21)"
    using entry_addr_bounds [OF assms] by (simp add: valid_slice_def)
  then show ?thesis
    by (subst coords.simps) (simp add: Varint_slice_def get_slice_def)
qed

text \<open>an induction principle along the walk\<close>

lemma walk_induct [consumes 2, case_names last step]:
  assumes "layout_ok ht" and "in_table ht b e"
    and "\<And>b e. in_table ht b e \<Longrightarrow> next_entry ht e b = Inr None \<Longrightarrow>
            coords ht e b = [(b, e)] \<Longrightarrow> P b e"
    and "\<And>b e b' e'. in_table ht b e \<Longrightarrow> next_entry ht e b = Inr (Some (e', b')) \<Longrightarrow>
            in_table ht b' e' \<Longrightarrow> b < b' \<or> (b' = b \<and> e < e') \<Longrightarrow>
            coords ht e b = (b, e) # coords ht e' b' \<Longrightarrow> P b' e' \<Longrightarrow> P b e"
  shows "P b e"
proof -
  define R where "R = inv_image walk_rel (\<lambda>(e, b). (ht, e, b))"
  have wfR: "wf R" by (simp add: R_def wf_walk_rel)
  show ?thesis using assms(2)
  proof (induction "(e, b)" arbitrary: e b rule: wf_induct_rule [OF wfR])
    case 1
    note it = \<open>in_table ht b e\<close>
    from assms(1) it show ?case
    proof (cases rule: next_entry_cases)
      case last
      then have "coords ht e b = [(b, e)]"
        using coords_unfold [OF assms(1) it] by simp
      then show ?thesis using assms(3) it last by blast
    next
      case (step e' b')
      have c: "coords ht e b = (b, e) # coords ht e' b'"
        using coords_unfold [OF assms(1) it] step(1) by simp
      obtain v where "Varint_slice (Buf ht) (entry_addr ht b e + 11) (entry_addr ht b e + 21) = Some v"
        using entry_addr_bounds [OF assms(1) it]
        by (auto simp: Varint_slice_def get_slice_def valid_slice_def)
      then have "((ht, e', b'), (ht, e, b)) \<in> walk_rel"
        using next_entry_measure step(1) by blast
      then have "((e', b'), (e, b)) \<in> R" by (simp add: R_def)
      then have "P b' e'" using 1(1) step(2) by blast
      then show ?thesis using assms(4) it step c by blast
    qed
  qed
qed

lemma coords_in_table:
  assumes "layout_ok ht" and "in_table ht b e"
  shows "\<forall>(b', e') \<in> set (coords ht e b). in_table ht b' e' \<and> (b < b' \<or> (b' = b \<and> e \<le> e'))"
  using assms
proof (induction b e rule: walk_induct)
  case (last b e)
  then show ?case by simp
next
  case (step b e b' e')
  then show ?case by auto
qed

lemma coords_distinct:
  assumes "layout_ok ht" and "in_table ht b e"
  shows "distinct (coords ht e b)"
  using assms
proof (induction b e rule: walk_induct)
  case (last b e)
  then show ?case by simp
next
  case (step b e b' e')
  have "(b, e) \<notin> set (coords ht e' b')"
    using coords_in_table [OF assms(1) step(3)] step(4) by auto
  then show ?case using step by simp
qed

lemma coords_nonempty:
  assumes "layout_ok ht" and "in_table ht b e"
  shows "coords ht e b \<noteq> []"
  using coords_unfold [OF assms] by simp

text \<open>the entries along the walk\<close>

definition entry_at :: "HashTable \<Rightarrow> int \<times> int \<Rightarrow> byte \<times> go_int \<times> go_int" where
  "entry_at ht c = read_entry (Buf ht) (entry_addr ht (fst c) (snd c))"

fun get_walk :: "go_int \<Rightarrow> int \<Rightarrow> int \<Rightarrow> go_int list \<Rightarrow> (byte \<times> go_int \<times> go_int) list \<Rightarrow> go_int list" where
  "get_walk key limit count' vals [] = vals"
| "get_walk key limit count' vals ((f, k, v) # rest) =
     (if f = 1 then
        (if k = key then
           (if count' + 1 = limit then vals @ [v]
            else get_walk key limit (count' + 1) (vals @ [v]) rest)
         else get_walk key limit count' vals rest)
      else if k = 0 \<and> v = 0 then vals
      else get_walk key limit count' vals rest)"

lemma Get_loop_walk:
  assumes "layout_ok ht" and "in_table ht b e"
  shows "Get_loop ht key limit count' e b vals =
           Inr (get_walk key limit count' vals (map (entry_at ht) (coords ht e b)))"
  using assms
proof (induction b e arbitrary: count' vals key rule: walk_induct)
  case (last b e)
  obtain f k v where r: "read_entry (Buf ht) (entry_addr ht b e) = (f, k, v)"
    by (metis prod_cases3)
  from read_entry_parts [OF entry_addr_bounds(3,4) [OF assms(1) last(1)] r]
  obtain n1 n2 where p: "get_byte (Buf ht) (entry_addr ht b e) = Some f"
     "Varint_slice (Buf ht) (entry_addr ht b e + 1) (entry_addr ht b e + 11) = Some (k, n1)"
     "Varint_slice (Buf ht) (entry_addr ht b e + 11) (entry_addr ht b e + 21) = Some (v, n2)"
    by blast
  have r': "entry_at ht (b, e) = (f, k, v)" using r by (simp add: entry_at_def)
  show ?case
    using last(2,3) p r' by (subst Get_loop.simps) (simp add: Let_def)
next
  case (step b e b' e')
  obtain f k v where r: "read_entry (Buf ht) (entry_addr ht b e) = (f, k, v)"
    by (metis prod_cases3)
  from read_entry_parts [OF entry_addr_bounds(3,4) [OF assms(1) step(1)] r]
  obtain n1 n2 where p: "get_byte (Buf ht) (entry_addr ht b e) = Some f"
     "Varint_slice (Buf ht) (entry_addr ht b e + 1) (entry_addr ht b e + 11) = Some (k, n1)"
     "Varint_slice (Buf ht) (entry_addr ht b e + 11) (entry_addr ht b e + 21) = Some (v, n2)"
    by blast
  have r': "entry_at ht (b, e) = (f, k, v)" using r by (simp add: entry_at_def)
  show ?case
    by (subst Get_loop.simps) (simp add: Let_def step(2,5,6) p r')
qed


fun remove_walk :: "go_int \<Rightarrow> go_int \<Rightarrow> (byte \<times> go_int \<times> go_int) list \<Rightarrow> nat option" where
  "remove_walk key val [] = None"
| "remove_walk key val ((f, k, v) # rest) =
     (if f = 1 then
        (if k = key \<and> v = val then Some 0 else map_option Suc (remove_walk key val rest))
      else if k = 0 \<and> v = 0 then None
      else map_option Suc (remove_walk key val rest))"

definition clear_entry :: "HashTable \<Rightarrow> int \<times> int \<Rightarrow> HashTable" where
  "clear_entry ht c = ht\<lparr>Buf := (Buf ht)[nat (entry_addr ht (fst c) (snd c)) := 0]\<rparr>"

lemma Remove_loop_walk:
  assumes "layout_ok ht" and "in_table ht b e"
  shows "Remove_loop ht key val e b =
           Inr (case remove_walk key val (map (entry_at ht) (coords ht e b)) of
                  None \<Rightarrow> ht
                | Some j \<Rightarrow> clear_entry ht (coords ht e b ! j))"
  using assms
proof (induction b e arbitrary: key val rule: walk_induct)
  case (last b e)
  obtain f k v where r: "read_entry (Buf ht) (entry_addr ht b e) = (f, k, v)"
    by (metis prod_cases3)
  from read_entry_parts [OF entry_addr_bounds(3,4) [OF assms(1) last(1)] r]
  obtain n1 n2 where p: "get_byte (Buf ht) (entry_addr ht b e) = Some f"
     "Varint_slice (Buf ht) (entry_addr ht b e + 1) (entry_addr ht b e + 11) = Some (k, n1)"
     "Varint_slice (Buf ht) (entry_addr ht b e + 11) (entry_addr ht b e + 21) = Some (v, n2)"
    by blast
  have r': "entry_at ht (b, e) = (f, k, v)" using r by (simp add: entry_at_def)
  show ?case
    by (subst Remove_loop.simps) (simp add: Let_def last(2,3) p r' clear_entry_def)
next
  case (step b e b' e')
  obtain f k v where r: "read_entry (Buf ht) (entry_addr ht b e) = (f, k, v)"
    by (metis prod_cases3)
  from read_entry_parts [OF entry_addr_bounds(3,4) [OF assms(1) step(1)] r]
  obtain n1 n2 where p: "get_byte (Buf ht) (entry_addr ht b e) = Some f"
     "Varint_slice (Buf ht) (entry_addr ht b e + 1) (entry_addr ht b e + 11) = Some (k, n1)"
     "Varint_slice (Buf ht) (entry_addr ht b e + 11) (entry_addr ht b e + 21) = Some (v, n2)"
    by blast
  have r': "entry_at ht (b, e) = (f, k, v)" using r by (simp add: entry_at_def)
  show ?case
    by (subst Remove_loop.simps)
       (auto simp add: Let_def step(2,5,6) p r' clear_entry_def split: option.splits)
qed

fun put_walk :: "(byte \<times> go_int \<times> go_int) list \<Rightarrow> nat option" where
  "put_walk [] = None"
| "put_walk ((f, k, v) # rest) = (if f \<noteq> 1 then Some 0 else map_option Suc (put_walk rest))"

definition write_entry :: "HashTable \<Rightarrow> int \<times> int \<Rightarrow> go_int \<Rightarrow> go_int \<Rightarrow> HashTable" where
  "write_entry ht c key val =
     (let a = entry_addr ht (fst c) (snd c)
      in ht\<lparr>Buf := store (store ((Buf ht)[nat a := 1]) (a + 1) (PutVarint key)) (a + 11) (PutVarint val)\<rparr>)"

lemma Put_loop_write:
  assumes "layout_ok ht" and "in_table ht b e" and "get_byte (Buf ht) (entry_addr ht b e) = Some f"
    and "f \<noteq> 1"
  shows "Put_loop ht key val b e = Some (Inr (write_entry ht (b, e) key val))"
proof -
  define a where "a = entry_addr ht b e"
  have a: "0 \<le> a" "a + 21 \<le> int (length (Buf ht))"
    using entry_addr_bounds [OF assms(1,2)] by (simp_all add: a_def)
  have 1: "PutVarint_slice ((Buf ht)[nat a := 1]) (a + 1) (a + 11) key
             = Some (store ((Buf ht)[nat a := 1]) (a + 1) (PutVarint key))"
    using a PutVarint_length [of key] by (simp add: PutVarint_slice_def valid_slice_def)
  have "length (store ((Buf ht)[nat a := 1]) (a + 1) (PutVarint key)) = length (Buf ht)"
    using a PutVarint_length [of key] by (simp add: length_store)
  then have 2: "PutVarint_slice (store ((Buf ht)[nat a := 1]) (a + 1) (PutVarint key)) (a + 11) (a + 21) val
             = Some (store (store ((Buf ht)[nat a := 1]) (a + 1) (PutVarint key)) (a + 11) (PutVarint val))"
    using a PutVarint_length [of val] by (simp add: PutVarint_slice_def valid_slice_def)
  show ?thesis
    using assms(3,4) 1 2
    by (subst Put_loop.simps) (simp add: Let_def a_def [symmetric] write_entry_def)
qed

lemma Put_loop_walk:
  assumes "layout_ok ht" and "in_table ht b e"
  shows "Put_loop ht key val b e =
           (case put_walk (map (entry_at ht) (coords ht e b)) of
              Some j \<Rightarrow> Some (Inr (write_entry ht (coords ht e b ! j) key val))
            | None \<Rightarrow>
                (case growBucket ht (sint (HashKey (ht_conf ht) key)) of
                   None \<Rightarrow> None
                 | Some (Inl err) \<Rightarrow> Some (Inl err)
                 | Some (Inr ht') \<Rightarrow> Put_loop ht' key val (sint (HashKey (ht_conf ht') key)) 0))"
  using assms
proof (induction b e rule: walk_induct)
  case (last b e)
  obtain f k v where r: "read_entry (Buf ht) (entry_addr ht b e) = (f, k, v)"
    by (metis prod_cases3)
  from read_entry_parts [OF entry_addr_bounds(3,4) [OF assms(1) last(1)] r]
  have p: "get_byte (Buf ht) (entry_addr ht b e) = Some f" by blast
  have r': "entry_at ht (b, e) = (f, k, v)" using r by (simp add: entry_at_def)
  show ?case
  proof (cases "f = 1")
    case False
    then show ?thesis
      using Put_loop_write [OF assms(1) last(1) p False] by (simp add: last(3) r')
  next
    case True
    have ne: "next_entry ht e b = Inr None" by (rule last(2))
    then have "e + 1 = PerBucket (ht_conf ht) \<and> nextBucket ht b = Inr 0"
      by (auto simp: next_entry_def split: if_splits sum.splits)
    then show ?thesis
      using True p by (subst Put_loop.simps) (simp add: Let_def last(3) r' cong: option.case_cong sum.case_cong)
  qed
next
  case (step b e b' e')
  obtain f k v where r: "read_entry (Buf ht) (entry_addr ht b e) = (f, k, v)"
    by (metis prod_cases3)
  from read_entry_parts [OF entry_addr_bounds(3,4) [OF assms(1) step(1)] r]
  have p: "get_byte (Buf ht) (entry_addr ht b e) = Some f" by blast
  have r': "entry_at ht (b, e) = (f, k, v)" using r by (simp add: entry_at_def)
  show ?case
  proof (cases "f = 1")
    case False
    then show ?thesis
      using Put_loop_write [OF assms(1) step(1) p False] by (simp add: step(5) r')
  next
    case True
    have "Put_loop ht key val b e = Put_loop ht key val b' e'"
      using True p step(2)
      by (subst Put_loop.simps)
         (auto simp: Let_def next_entry_def split: if_splits sum.splits)
    then show ?thesis
      using True step(6) by (simp add: step(5) r' split: option.splits)
  qed
qed

section \<open>Frames of buffer writes\<close>

definition agree_outside :: "byte list \<Rightarrow> byte list \<Rightarrow> int \<Rightarrow> int \<Rightarrow> bool" where
  "agree_outside buf buf' lo hi \<longleftrightarrow>
     length buf' = length buf \<and> (\<forall>i < length buf. int i < lo \<or> hi \<le> int i \<longrightarrow> buf' ! i = buf ! i)"

lemma agree_outside_refl: "agree_outside buf buf lo hi"
  by (simp add: agree_outside_def)

lemma agree_outside_trans:
  "agree_outside b1 b2 lo hi \<Longrightarrow> agree_outside b2 b3 lo' hi' \<Longrightarrow> l \<le> lo \<Longrightarrow> l \<le> lo' \<Longrightarrow>
   hi \<le> h \<Longrightarrow> hi' \<le> h \<Longrightarrow> agree_outside b1 b3 l h"
  by (auto simp: agree_outside_def)

lemma agree_outside_update:
  "0 \<le> a \<Longrightarrow> agree_outside buf (buf[nat a := x]) a (a + 1)"
  by (auto simp: agree_outside_def nth_list_update)

lemma agree_outside_store:
  "0 \<le> lo \<Longrightarrow> nat lo + length bs \<le> length buf \<Longrightarrow>
     agree_outside buf (store buf lo bs) lo (lo + int (length bs))"
  by (auto simp: agree_outside_def length_store nth_store)

lemma get_slice_agree:
  assumes "agree_outside buf buf' lo hi" and "h2 \<le> lo \<or> hi \<le> l2"
  shows "get_slice buf' l2 h2 = get_slice buf l2 h2"
proof (cases "valid_slice buf l2 h2")
  case False
  moreover have "length buf' = length buf" using assms(1) by (simp add: agree_outside_def)
  ultimately have "\<not> valid_slice buf' l2 h2" by (simp add: valid_slice_def)
  then show ?thesis using False by (simp add: get_slice_def)
next
  case True
  then have v: "0 \<le> l2" "l2 \<le> h2" "h2 \<le> int (length buf)" by (simp_all add: valid_slice_def)
  have len: "length buf' = length buf" using assms(1) by (simp add: agree_outside_def)
  have "take (nat (h2 - l2)) (drop (nat l2) buf') = take (nat (h2 - l2)) (drop (nat l2) buf)"
  proof (rule nth_equalityI)
    show "length (take (nat (h2 - l2)) (drop (nat l2) buf')) = length (take (nat (h2 - l2)) (drop (nat l2) buf))"
      by (simp add: len)
    fix i assume "i < length (take (nat (h2 - l2)) (drop (nat l2) buf'))"
    then have i: "i < nat (h2 - l2)" "nat l2 + i < length buf" using len by auto
    define j where "j = nat l2 + i"
    have "int j = l2 + int i" using v by (simp add: j_def)
    then have "int j < lo \<or> hi \<le> int j"
      using assms(2) v i(1) by auto
    moreover have "j < length buf" using i by (simp add: j_def)
    moreover have "\<forall>i < length buf. int i < lo \<or> hi \<le> int i \<longrightarrow> buf' ! i = buf ! i"
      using assms(1) by (simp add: agree_outside_def)
    ultimately have "buf' ! j = buf ! j" by blast
    then have "buf' ! (nat l2 + i) = buf ! (nat l2 + i)" by (simp add: j_def)
    then show "take (nat (h2 - l2)) (drop (nat l2) buf') ! i = take (nat (h2 - l2)) (drop (nat l2) buf) ! i"
      using i len by simp
  qed
  then show ?thesis using True len by (simp add: get_slice_def valid_slice_def)
qed

lemma Varint_slice_agree:
  "agree_outside buf buf' lo hi \<Longrightarrow> h2 \<le> lo \<or> hi \<le> l2 \<Longrightarrow>
     Varint_slice buf' l2 h2 = Varint_slice buf l2 h2"
  by (simp add: Varint_slice_def get_slice_agree)

lemma get_byte_agree:
  "agree_outside buf buf' lo hi \<Longrightarrow> a < lo \<or> hi \<le> a \<Longrightarrow> get_byte buf' a = get_byte buf a"
  by (auto simp: get_byte_def valid_index_def agree_outside_def)

lemma get_slice_eq_take_drop:
  "valid_slice buf lo hi \<Longrightarrow> get_slice buf lo hi = Some (take (nat (hi - lo)) (drop (nat lo) buf))"
  by (simp add: get_slice_def)

lemma read_entry_agree:
  assumes "agree_outside buf buf' lo hi" and "a + 21 \<le> lo \<or> hi \<le> a"
    and "0 \<le> a" and "a + 21 \<le> int (length buf)"
  shows "read_entry buf' a = read_entry buf a"
proof -
  have len: "length buf' = length buf" using assms(1) by (simp add: agree_outside_def)
  have 1: "buf' ! nat a = buf ! nat a"
    using assms by (auto simp: agree_outside_def)
  have "get_slice buf' (a + 1) (a + 11) = get_slice buf (a + 1) (a + 11)"
    using assms by (intro get_slice_agree [of buf buf' lo hi]) auto
  then have 2: "take 10 (drop (nat (a + 1)) buf') = take 10 (drop (nat (a + 1)) buf)"
    using assms(3,4) len by (simp add: get_slice_def valid_slice_def)
  have "get_slice buf' (a + 11) (a + 21) = get_slice buf (a + 11) (a + 21)"
    using assms by (intro get_slice_agree [of buf buf' lo hi]) auto
  then have 3: "take 10 (drop (nat (a + 11)) buf') = take 10 (drop (nat (a + 11)) buf)"
    using assms(3,4) len by (simp add: get_slice_def valid_slice_def)
  show ?thesis by (simp add: read_entry_def 1 2 3)
qed

text \<open>headers and entries do not overlap\<close>

lemma header_entry_disjoint:
  assumes "layout_ok ht" and "in_table ht b e" and "0 \<le> b'"
  shows "b' * BucketSize (ht_conf ht) + 10 \<le> entry_addr ht b e
         \<or> entry_addr ht b e + 21 \<le> b' * BucketSize (ht_conf ht)"
proof -
  define s where "s = BucketSize (ht_conf ht)"
  have s: "0 \<le> s" using layout_BucketSize [OF assms(1)] assms(1) by (simp add: s_def layout_ok_def)
  note bnd = entry_addr_bounds(1,2) [OF assms(1,2)]
  show ?thesis
  proof (cases "b' \<le> b")
    case True
    then have "b' * s \<le> b * s" using s by (intro mult_right_mono) simp_all
    then show ?thesis using bnd by (simp add: s_def)
  next
    case False
    then have "(b + 1) * s \<le> b' * s" using s by (intro mult_le_next) simp_all
    then show ?thesis using bnd by (simp add: s_def)
  qed
qed

lemma entries_disjoint:
  assumes "layout_ok ht" and "in_table ht b e" and "in_table ht b' e'" and "(b, e) \<noteq> (b', e')"
  shows "entry_addr ht b e + 21 \<le> entry_addr ht b' e' \<or> entry_addr ht b' e' + 21 \<le> entry_addr ht b e"
proof -
  define s where "s = BucketSize (ht_conf ht)"
  have s: "0 \<le> s" using layout_BucketSize [OF assms(1)] assms(1) by (simp add: s_def layout_ok_def)
  note b1 = entry_addr_bounds(1,2) [OF assms(1,2)]
  note b2 = entry_addr_bounds(1,2) [OF assms(1,3)]
  consider "b < b'" | "b' < b" | "b = b'" "e \<noteq> e'" using assms(4) by fastforce
  then show ?thesis
  proof cases
    case 1
    then have "(b + 1) * s \<le> b' * s" using s by (intro mult_le_next) simp_all
    then show ?thesis using b1 b2 by (simp add: s_def)
  next
    case 2
    then have "(b' + 1) * s \<le> b * s" using s by (intro mult_le_next) simp_all
    then show ?thesis using b1 b2 by (simp add: s_def)
  next
    case 3
    then show ?thesis by (auto simp: entry_addr_def EntrySize_def)
  qed
qed


lemma nextBucket_agree:
  assumes "ht_conf ht' = ht_conf ht" and "numBuckets ht' = numBuckets ht"
    and "agree_outside (Buf ht) (Buf ht') lo hi"
    and "b * BucketSize (ht_conf ht) + 10 \<le> lo \<or> hi \<le> b * BucketSize (ht_conf ht)"
  shows "nextBucket ht' b = nextBucket ht b"
proof -
  have "Varint_slice (Buf ht') (b * BucketSize (ht_conf ht)) (b * BucketSize (ht_conf ht) + 10)
      = Varint_slice (Buf ht) (b * BucketSize (ht_conf ht)) (b * BucketSize (ht_conf ht) + 10)"
    using assms(3,4) by (intro Varint_slice_agree [of _ _ lo hi]) auto
  then show ?thesis
    by (simp add: nextBucket_def Let_def assms(1,2) split: option.splits prod.splits)
qed

definition same_links :: "HashTable \<Rightarrow> HashTable \<Rightarrow> bool" where
  "same_links ht ht' \<longleftrightarrow>
     ht_conf ht' = ht_conf ht \<and> numBuckets ht' = numBuckets ht \<and>
     length (Buf ht') = length (Buf ht) \<and>
     (\<forall>b. 0 \<le> b \<longrightarrow> nextBucket ht' b = nextBucket ht b)"

lemma same_links_layout: "same_links ht ht' \<Longrightarrow> layout_ok ht \<Longrightarrow> layout_ok ht'"
  by (simp add: same_links_def layout_ok_def)

lemma same_links_in_table: "same_links ht ht' \<Longrightarrow> in_table ht' b e = in_table ht b e"
  by (simp add: same_links_def in_table_def)

lemma same_links_entry_addr: "same_links ht ht' \<Longrightarrow> entry_addr ht' b e = entry_addr ht b e"
  by (simp add: same_links_def entry_addr_def)

lemma same_links_coords:
  assumes "same_links ht ht'" and "layout_ok ht" and "in_table ht b e"
  shows "coords ht' e b = coords ht e b"
  using assms(2,3)
proof (induction b e rule: walk_induct)
  case (last b e)
  have "next_entry ht' e b = next_entry ht e b"
    using assms(1) last(1) by (simp add: next_entry_def same_links_def in_table_def)
  then show ?case
    using coords_unfold [OF same_links_layout [OF assms(1,2)], of b e] last assms(1)
    by (simp add: same_links_in_table)
next
  case (step b e b' e')
  have "next_entry ht' e b = next_entry ht e b"
    using assms(1) step(1) by (simp add: next_entry_def same_links_def in_table_def)
  then show ?case
    using coords_unfold [OF same_links_layout [OF assms(1,2)], of b e] step assms(1)
    by (simp add: same_links_in_table)
qed

text \<open>writing and clearing an entry\<close>

lemma write_entry_frame:
  assumes "layout_ok ht" and "in_table ht b e"
  shows "agree_outside (Buf ht) (Buf (write_entry ht (b, e) key val))
           (entry_addr ht b e) (entry_addr ht b e + 21)"
proof -
  define a where "a = entry_addr ht b e"
  have a: "0 \<le> a" "a + 21 \<le> int (length (Buf ht))"
    using entry_addr_bounds [OF assms(1,2)] by (simp_all add: a_def)
  define b1 where "b1 = (Buf ht)[nat a := 1]"
  define b2 where "b2 = store b1 (a + 1) (PutVarint key)"
  define b3 where "b3 = store b2 (a + 11) (PutVarint val)"
  have 1: "agree_outside (Buf ht) b1 a (a + 1)"
    using a by (simp add: b1_def agree_outside_update)
  have l1: "length b1 = length (Buf ht)" by (simp add: b1_def)
  have 2: "agree_outside b1 b2 (a + 1) (a + 1 + int (length (PutVarint key)))"
    unfolding b2_def using a l1 PutVarint_length [of key] by (intro agree_outside_store) simp_all
  have l2: "length b2 = length (Buf ht)" using 2 l1 by (simp add: agree_outside_def)
  have 3: "agree_outside b2 b3 (a + 11) (a + 11 + int (length (PutVarint val)))"
    unfolding b3_def using a l2 PutVarint_length [of val] by (intro agree_outside_store) simp_all
  have 4: "agree_outside (Buf ht) b2 a (a + 11)"
    using agree_outside_trans [OF 1 2, of a "a + 11"] PutVarint_length [of key] by simp
  have "agree_outside (Buf ht) b3 a (a + 21)"
    using agree_outside_trans [OF 4 3, of a "a + 21"] PutVarint_length [of val] by simp
  then show ?thesis
    by (simp add: write_entry_def Let_def a_def b3_def b2_def b1_def)
qed

lemma write_entry_fields:
  "ht_conf (write_entry ht c key val) = ht_conf ht"
  "numBuckets (write_entry ht c key val) = numBuckets ht"
  "Used (write_entry ht c key val) = Used ht"
  "Size (write_entry ht c key val) = Size ht"
  "Growth (write_entry ht c key val) = Growth ht"
  by (simp_all add: write_entry_def Let_def)

lemma clear_entry_fields:
  "ht_conf (clear_entry ht c) = ht_conf ht"
  "numBuckets (clear_entry ht c) = numBuckets ht"
  "Used (clear_entry ht c) = Used ht"
  "Size (clear_entry ht c) = Size ht"
  "Growth (clear_entry ht c) = Growth ht"
  by (simp_all add: clear_entry_def)

lemma clear_entry_frame:
  assumes "layout_ok ht" and "in_table ht b e"
  shows "agree_outside (Buf ht) (Buf (clear_entry ht (b, e)))
           (entry_addr ht b e) (entry_addr ht b e + 1)"
  using entry_addr_bounds(3) [OF assms] by (simp add: clear_entry_def agree_outside_update)

lemma frame_same_links:
  assumes "layout_ok ht" and "in_table ht b e"
    and "ht_conf ht' = ht_conf ht" and "numBuckets ht' = numBuckets ht"
    and "agree_outside (Buf ht) (Buf ht') (entry_addr ht b e) hi" and "hi \<le> entry_addr ht b e + 21"
  shows "same_links ht ht'"
proof -
  have "nextBucket ht' b' = nextBucket ht b'" if "0 \<le> b'" for b'
    using header_entry_disjoint [OF assms(1,2) that] assms(6)
    by (intro nextBucket_agree [OF assms(3,4,5)]) auto
  then show ?thesis using assms(3,4,5) by (simp add: same_links_def agree_outside_def)
qed

lemma frame_entry_at:
  assumes "layout_ok ht" and "in_table ht b e" and "in_table ht b' e'" and "(b', e') \<noteq> (b, e)"
    and "ht_conf ht' = ht_conf ht"
    and "agree_outside (Buf ht) (Buf ht') (entry_addr ht b e) hi" and "hi \<le> entry_addr ht b e + 21"
  shows "entry_at ht' (b', e') = entry_at ht (b', e')"
proof -
  have "entry_addr ht' b' e' = entry_addr ht b' e'" using assms(5) by (simp add: entry_addr_def)
  moreover have "read_entry (Buf ht') (entry_addr ht b' e') = read_entry (Buf ht) (entry_addr ht b' e')"
    using entries_disjoint [OF assms(1,3,2,4)] assms(7) entry_addr_bounds(3,4) [OF assms(1,3)]
    by (intro read_entry_agree [OF assms(6)]) auto
  ultimately show ?thesis by (simp add: entry_at_def)
qed

lemma write_entry_at:
  assumes "layout_ok ht" and "in_table ht b e"
  shows "entry_at (write_entry ht (b, e) key val) (b, e) = (1, key, val)"
proof -
  define a where "a = entry_addr ht b e"
  define n where "n = nat a"
  have a: "0 \<le> a" "a + 21 \<le> int (length (Buf ht))"
    using entry_addr_bounds [OF assms(1,2)] by (simp_all add: a_def)
  have n: "n + 21 \<le> length (Buf ht)" "a = int n" using a by (simp_all add: n_def)
  define pk where "pk = PutVarint key"
  define pv where "pv = PutVarint val"
  have pk: "length pk \<le> 10" and pv: "length pv \<le> 10"
    by (simp_all add: pk_def pv_def PutVarint_length)
  define b1 where "b1 = (Buf ht)[n := 1]"
  define b2 where "b2 = store b1 (int n + 1) pk"
  define b3 where "b3 = store b2 (int n + 11) pv"
  have l1: "length b1 = length (Buf ht)" by (simp add: b1_def)
  have l2: "length b2 = length (Buf ht)" using n pk l1 by (simp add: b2_def length_store nat_add_distrib)
  have l3: "length b3 = length (Buf ht)" using n pv l2 by (simp add: b3_def length_store nat_add_distrib)
  have n2: "\<forall>i < length (Buf ht). b2 ! i = (if n + 1 \<le> i \<and> i < n + 1 + length pk then pk ! (i - (n + 1)) else b1 ! i)"
    using n pk l1 by (simp add: b2_def nth_store nat_add_distrib)
  have n3: "\<forall>i < length (Buf ht). b3 ! i = (if n + 11 \<le> i \<and> i < n + 11 + length pv then pv ! (i - (n + 11)) else b2 ! i)"
    using n pv l2 by (simp add: b3_def nth_store nat_add_distrib)
  have f: "b3 ! n = 1" using n n2 n3 by (simp add: b1_def)
  have "\<exists>rest. take 10 (drop (n + 1) b3) = pk @ rest"
  proof (rule prefix_by_nth)
    show "length pk \<le> length (take 10 (drop (n + 1) b3))" using pk n l3 by simp
    show "\<forall>i < length pk. take 10 (drop (n + 1) b3) ! i = pk ! i"
      using pk n l3 n2 n3 by simp
  qed
  then have k: "fst (Varint (take 10 (drop (n + 1) b3))) = key"
    using Varint_PutVarint [of key] by (auto simp: pk_def)
  have "\<exists>rest. take 10 (drop (n + 11) b3) = pv @ rest"
  proof (rule prefix_by_nth)
    show "length pv \<le> length (take 10 (drop (n + 11) b3))" using pv n l3 by simp
    show "\<forall>i < length pv. take 10 (drop (n + 11) b3) ! i = pv ! i"
      using pv n l3 n3 by simp
  qed
  then have v: "fst (Varint (take 10 (drop (n + 11) b3))) = val"
    using Varint_PutVarint [of val] by (auto simp: pv_def)
  have "Buf (write_entry ht (b, e) key val) = b3"
    by (simp add: write_entry_def Let_def a_def [symmetric] n(2) b3_def b2_def b1_def pk_def pv_def)
  moreover have "entry_addr (write_entry ht (b, e) key val) b e = int n"
    by (simp add: entry_addr_def write_entry_fields a_def [symmetric, unfolded entry_addr_def] n(2) [symmetric])
  ultimately show ?thesis
    using f k v by (simp add: entry_at_def read_entry_def nat_add_distrib)
qed

lemma clear_entry_at:
  assumes "layout_ok ht" and "in_table ht b e" and "entry_at ht (b, e) = (f, k, v)"
  shows "entry_at (clear_entry ht (b, e)) (b, e) = (0, k, v)"
proof -
  define a where "a = entry_addr ht b e"
  have a: "0 \<le> a" "a + 21 \<le> int (length (Buf ht))"
    using entry_addr_bounds [OF assms(1,2)] by (simp_all add: a_def)
  have "entry_addr (clear_entry ht (b, e)) b e = a"
    by (simp add: entry_addr_def clear_entry_fields a_def)
  moreover have "Buf (clear_entry ht (b, e)) = (Buf ht)[nat a := 0]"
    by (simp add: clear_entry_def a_def)
  moreover have "nat a < nat (a + 1)" "nat a < nat (a + 11)" using a by simp_all
  ultimately show ?thesis
    using assms(3) a by (simp add: entry_at_def read_entry_def a_def [symmetric] drop_update_cancel)
qed

section \<open>Deleting twice\<close>

lemma get_walk_unlimited:
  "0 \<le> count' \<Longrightarrow> get_walk key 0 count' vals S = vals @ get_walk key 0 0 [] S"
proof (induction S arbitrary: count' vals)
  case Nil
  then show ?case by simp
next
  case (Cons x S)
  obtain f k v where x: "x = (f, k, v)" by (metis prod_cases3)
  have 1: "get_walk key 0 (count' + 1) (vals @ [v]) S = (vals @ [v]) @ get_walk key 0 0 [] S"
    using Cons.prems by (intro Cons.IH) simp
  have 2: "get_walk key 0 1 [v] S = [v] @ get_walk key 0 0 [] S"
    using Cons.IH [of 1 "[v]"] by simp
  have 3: "get_walk key 0 count' vals S = vals @ get_walk key 0 0 [] S"
    using Cons.prems by (intro Cons.IH)
  show ?case using Cons.prems 1 2 3 by (auto simp: x)
qed

lemma get_walk_first:
  "get_walk key 1 0 vals S = vals @ take 1 (get_walk key 0 0 [] S)"
proof (induction S)
  case Nil
  then show ?case by simp
next
  case (Cons x S)
  obtain f k v where x: "x = (f, k, v)" by (metis prod_cases3)
  have "get_walk key 0 1 [v] S = [v] @ get_walk key 0 0 [] S"
    using get_walk_unlimited [of 1 key "[v]" S] by simp
  then show ?case using Cons by (auto simp: x)
qed

lemma remove_only_hit:
  assumes "get_walk key 0 0 [] S = [w]"
  shows "\<exists>j. remove_walk key w S = Some j \<and> j < length S \<and> (\<exists>f. S ! j = (f, key, w)) \<and>
             get_walk key 0 0 [] (S[j := (0, key, w)]) = []"
  using assms
proof (induction S)
  case Nil
  then show ?case by simp
next
  case (Cons x S)
  obtain f k v where x: "x = (f, k, v)" by (metis prod_cases3)
  show ?case
  proof (cases "f = 1")
    case True
    show ?thesis
    proof (cases "k = key")
      case True
      have "get_walk key 0 1 [v] S = [v] @ get_walk key 0 0 [] S"
        using get_walk_unlimited [of 1 key "[v]" S] by simp
      then have h: "v = w" "get_walk key 0 0 [] S = []"
        using Cons.prems \<open>f = 1\<close> True by (simp_all add: x)
      then show ?thesis using \<open>f = 1\<close> True
        by (intro exI [of _ 0]) (simp add: x)
    next
      case False
      then have "get_walk key 0 0 [] S = [w]" using Cons.prems True by (simp add: x)
      then obtain j where "remove_walk key w S = Some j" "j < length S" "\<exists>f. S ! j = (f, key, w)"
         "get_walk key 0 0 [] (S[j := (0, key, w)]) = []"
        using Cons.IH by blast
      then show ?thesis using True False
        by (intro exI [of _ "Suc j"]) (simp add: x)
    qed
  next
    case False
    then have nz: "\<not> (k = 0 \<and> v = 0)" and "get_walk key 0 0 [] S = [w]"
      using Cons.prems by (auto simp: x split: if_splits)
    then obtain j where "remove_walk key w S = Some j" "j < length S" "\<exists>f. S ! j = (f, key, w)"
         "get_walk key 0 0 [] (S[j := (0, key, w)]) = []"
      using Cons.IH by blast
    then show ?thesis using False nz
      by (intro exI [of _ "Suc j"]) (simp add: x)
  qed
qed

lemma layout_HashKey_in_table:
  assumes "layout_ok ht"
  shows "in_table ht (sint (HashKey (ht_conf ht) key)) 0"
proof -
  have c: "ht_conf ht = CalculateConfigConstants (ht_conf ht)" and p: "0 < InitialBuckets (ht_conf ht)"
    and n: "InitialBuckets (ht_conf ht) \<le> numBuckets ht" and pb: "1 \<le> PerBucket (ht_conf ht)"
    using assms by (simp_all add: layout_ok_def)
  have "0 < InitialBuckets (CalculateConfigConstants (ht_conf ht))" using c p by simp
  then have "0 \<le> sint (HashKey (ht_conf ht) key) \<and>
      sint (HashKey (ht_conf ht) key) < InitialBuckets (CalculateConfigConstants (ht_conf ht))"
    by (rule HashKey_bounds)
  then show ?thesis using c n pb by (simp add: in_table_def)
qed

text \<open>the entries of a chain after one of them has been overwritten\<close>

lemma entries_after_write:
  assumes "layout_ok ht" and "in_table ht b e" and "j < length (coords ht e b)"
    and "ht_conf ht' = ht_conf ht" and "numBuckets ht' = numBuckets ht"
    and "agree_outside (Buf ht) (Buf ht') (entry_addr ht (fst (coords ht e b ! j)) (snd (coords ht e b ! j))) hi"
    and "hi \<le> entry_addr ht (fst (coords ht e b ! j)) (snd (coords ht e b ! j)) + 21"
    and "entry_at ht' (coords ht e b ! j) = x"
  shows "coords ht' e b = coords ht e b"
    and "map (entry_at ht') (coords ht e b) = (map (entry_at ht) (coords ht e b))[j := x]"
proof -
  define cs where "cs = coords ht e b"
  obtain bj ej where c: "cs ! j = (bj, ej)" by (metis surj_pair)
  have inj: "in_table ht bj ej"
    using coords_in_table [OF assms(1,2)] assms(3) c nth_mem [of j cs] by (auto simp: cs_def)
  have sl: "same_links ht ht'"
    using assms(4-7) c by (intro frame_same_links [OF assms(1) inj]) (simp_all add: cs_def)
  show "coords ht' e b = coords ht e b"
    using same_links_coords [OF sl assms(1,2)] .
  show "map (entry_at ht') (coords ht e b) = (map (entry_at ht) (coords ht e b))[j := x]"
  proof (rule nth_equalityI)
    show "length (map (entry_at ht') (coords ht e b)) = length ((map (entry_at ht) (coords ht e b))[j := x])"
      by simp
    fix i assume "i < length (map (entry_at ht') (coords ht e b))"
    then have i: "i < length cs" by (simp add: cs_def)
    show "map (entry_at ht') (coords ht e b) ! i = (map (entry_at ht) (coords ht e b))[j := x] ! i"
    proof (cases "i = j")
      case True
      then show ?thesis using i assms(8) by (simp add: cs_def)
    next
      case False
      obtain bi ei where ci: "cs ! i = (bi, ei)" by (metis surj_pair)
      have ini: "in_table ht bi ei"
        using coords_in_table [OF assms(1,2)] i ci nth_mem [of i cs] by (auto simp: cs_def)
      have "cs ! i \<noteq> cs ! j"
        using coords_distinct [OF assms(1,2)] i assms(3) False
        by (simp add: cs_def nth_eq_iff_index_eq)
      then have "entry_at ht' (bi, ei) = entry_at ht (bi, ei)"
        using assms(4,6,7) c ci
        by (intro frame_entry_at [OF assms(1) inj ini]) (simp_all add: cs_def)
      then show ?thesis using False i ci by (simp add: cs_def)
    qed
  qed
qed

lemma Collection_Delete_twice:
  "Collection_Delete c id' = (None, c') \<Longrightarrow> Collection_Delete c' id' = (Some ErrorNoDoc, c')"
  by (auto simp: Collection_Delete_def get_byte_def valid_index_def split: if_splits)

text \<open>
  Claim C10. In a partition whose lookup table holds exactly one entry for the identifier
  (\<open>Get(id, 0)\<close> returns a single physical identifier), after a \<open>Partition.Delete(id)\<close>
  that returned no error a second \<open>Partition.Delete(id)\<close> returns \<open>ErrorNoDoc\<close> and
  leaves the partition as it was: the collection buffer, \<open>Used\<close> and the lookup table. At
  the level of the collection file, a \<open>Collection.Delete\<close> that follows a successful
  \<open>Collection.Delete\<close> of the same identifier returns \<open>ErrorNoDoc\<close> and leaves the
  collection as it was.
\<close>

theorem second_Delete_fails:
  assumes "layout_ok (lookup part)" and "Get (lookup part) id' 0 = Inr [physID]"
    and "Partition_Delete part id' = (None, part')"
  shows "Partition_Delete part' id' = (Some ErrorNoDoc, part') \<and>
         (\<forall>c docId c'. Collection_Delete c docId = (None, c') \<longrightarrow>
                         Collection_Delete c' docId = (Some ErrorNoDoc, c'))"
proof -
  define ht where "ht = lookup part"
  define h where "h = sint (HashKey (ht_conf ht) id')"
  define cs where "cs = coords ht 0 h"
  define S where "S = map (entry_at ht) cs"
  have ok: "layout_ok ht" using assms(1) by (simp add: ht_def)
  have it: "in_table ht h 0" using layout_HashKey_in_table [OF ok] by (simp add: h_def)
  have g0: "get_walk id' 0 0 [] S = [physID]"
    using assms(2) Get_loop_walk [OF ok it, of id' 0 0 "[]"]
    by (simp add: Get_def ht_def [symmetric] h_def [symmetric] S_def cs_def)
  have g1: "Get ht id' 1 = Inr [physID]"
    using Get_loop_walk [OF ok it, of id' 1 0 "[]"] get_walk_first [of id' "[]" S] g0
    by (simp add: Get_def h_def [symmetric] S_def cs_def)
  obtain j f where j: "remove_walk id' physID S = Some j" "j < length S" "S ! j = (f, id', physID)"
      "get_walk id' 0 0 [] (S[j := (0, id', physID)]) = []"
    using remove_only_hit [OF g0] by blast
  define ht' where "ht' = clear_entry ht (cs ! j)"
  have rm: "Remove ht id' physID = Inr ht'"
    using Remove_loop_walk [OF ok it, of id' physID] j(1)
    by (simp add: Remove_def h_def [symmetric] S_def cs_def ht'_def)
  obtain r col' where cd: "Collection_Delete (col part) (sint physID) = (r, col')"
    by (metis surj_pair)
  have p': "part' = part\<lparr>col := col', lookup := ht'\<rparr>"
    using assms(3) g1 cd rm
    by (auto simp: Partition_Delete_def ht_def [symmetric] split: option.splits error.splits)
  obtain bj ej where c: "cs ! j = (bj, ej)" by (metis surj_pair)
  have jl: "j < length cs" using j(2) by (simp add: S_def)
  have inj: "in_table ht bj ej"
    using coords_in_table [OF ok it] jl c nth_mem [of j cs] by (auto simp: cs_def)
  have ea: "entry_at ht (bj, ej) = (f, id', physID)"
    using j(3) jl c by (simp add: S_def)
  have x: "entry_at ht' (cs ! j) = (0, id', physID)"
    using clear_entry_at [OF ok inj ea] by (simp add: ht'_def c)
  have fr: "agree_outside (Buf ht) (Buf ht') (entry_addr ht (fst (cs ! j)) (snd (cs ! j)))
              (entry_addr ht (fst (cs ! j)) (snd (cs ! j)) + 1)"
    using clear_entry_frame [OF ok inj] by (simp add: ht'_def c)
  have cs': "coords ht' 0 h = cs"
    and S': "map (entry_at ht') cs = S[j := (0, id', physID)]"
    using entries_after_write [OF ok it, of j ht' _ "(0, id', physID)"] jl fr x
    by (simp_all add: cs_def [symmetric] S_def ht'_def clear_entry_fields)
  have sl: "same_links ht ht'"
    using fr by (intro frame_same_links [OF ok inj, where hi = "entry_addr ht bj ej + 1"])
      (simp_all add: ht'_def clear_entry_fields c)
  have ok': "layout_ok ht'" using same_links_layout [OF sl ok] .
  have h': "sint (HashKey (ht_conf ht') id') = h"
    by (simp add: ht'_def clear_entry_fields h_def)
  have it': "in_table ht' h 0" using it sl by (simp add: same_links_in_table)
  have "Get ht' id' 1 = Inr (get_walk id' 1 0 [] (S[j := (0, id', physID)]))"
    using Get_loop_walk [OF ok' it', of id' 1 0 "[]"] by (simp add: Get_def h' cs' S')
  then have "Get ht' id' 1 = Inr []"
    using get_walk_first [of id' "[]" "S[j := (0, id', physID)]"] j(4) by simp
  then have "Partition_Delete part' id' = (Some ErrorNoDoc, part')"
    by (simp add: Partition_Delete_def p')
  then show ?thesis using Collection_Delete_twice by blast
qed

theorem second_Delete_fails_witness:
  "layout_ok (lookup demoPartition) \<and> Get (lookup demoPartition) 7 0 = Inr [0] \<and>
   fst (Partition_Delete demoPartition 7) = None \<and>
   Partition_Delete (snd (Partition_Delete demoPartition 7)) 7 =
     (Some ErrorNoDoc, snd (Partition_Delete demoPartition 7))"
proof -
  have h1: "layout_ok (lookup demoPartition)" unfolding layout_ok_def by code_simp
  have h2: "Get (lookup demoPartition) 7 0 = Inr [0]" by code_simp
  have h3: "fst (Partition_Delete demoPartition 7) = None" by code_simp
  have h4: "Partition_Delete demoPartition 7 = (None, snd (Partition_Delete demoPartition 7))"
    using h3 by (metis prod.collapse)
  show ?thesis using second_Delete_fails [OF h1 h2 h4] h1 h2 h3 by blast
qed

text \<open>
  Without the single entry the second deletion can succeed: \<open>Partition.Insert\<close> does not
  look for the identifier, so two documents can be inserted under the identifier 5; the
  first \<open>Delete(5)\<close> removes one of them, the second \<open>Delete(5)\<close> returns no error and
  changes both the collection buffer and the lookup table.
\<close>

theorem second_Delete_of_duplicate_id_succeeds:
  "(case Partition_Clear (closedPartition tinyConfig) of
      Some (None, part0) \<Rightarrow>
        (case Partition_Insert part0 5 [97] of
           Some (Inr phys1, part1) \<Rightarrow>
             (case Partition_Insert part1 5 [98] of
                Some (Inr phys2, part2) \<Rightarrow>
                  (case Partition_Delete part2 5 of
                     (None, part3) \<Rightarrow>
                       (case Partition_Delete part3 5 of
                          (None, part4) \<Rightarrow> Buf (col part4) \<noteq> Buf (col part3) \<and> lookup part4 \<noteq> lookup part3
                        | _ \<Rightarrow> False)
                   | _ \<Rightarrow> False)
              | _ \<Rightarrow> False)
         | _ \<Rightarrow> False)
    | _ \<Rightarrow> False)"
  by code_simp

section \<open>Growing a chain\<close>

lemma Varint_PutVarint_count:
  "0 < snd (Varint (PutVarint x @ rest))"
proof -
  define ux where "ux = (if x <s 0 then NOT (push_bit 1 x) else push_bit 1 x)"
  have U: "Uvarint_loop (PutUvarint ux @ rest) 0 0 0 = (0 OR push_bit 0 ux, int 0 + int (length (PutUvarint ux)))
     \<and> 0 + length (PutUvarint ux) \<le> 10"
    using unsigned_less [of ux, where 'a = nat] by (intro Uvarint_loop_Put) simp_all
  have P: "PutVarint x = PutUvarint ux" by (simp add: PutVarint_def ux_def Let_def)
  have "0 < length (PutUvarint ux)" by (subst PutUvarint.simps) simp
  then show ?thesis using U by (simp add: P Varint_def Uvarint_def Let_def split: prod.splits)
qed

lemma Varint_zeros: "Varint (replicate 10 0) = (0, 1)"
  by code_simp

definition zero_from :: "byte list \<Rightarrow> int \<Rightarrow> bool" where
  "zero_from buf n \<longleftrightarrow> (\<forall>i. n \<le> int i \<and> i < length buf \<longrightarrow> buf ! i = 0)"

lemma zero_slice:
  assumes "zero_from buf n" and "n \<le> lo" and "0 \<le> lo" and "lo + int k \<le> int (length buf)"
  shows "take k (drop (nat lo) buf) = replicate k 0"
proof (rule nth_equalityI)
  show "length (take k (drop (nat lo) buf)) = length (replicate k (0::byte))"
    using assms(3,4) by simp
  fix i assume "i < length (take k (drop (nat lo) buf))"
  then have i: "i < k" by simp
  define j where "j = nat lo + i"
  have "n \<le> int j" "j < length buf" using assms(2,3,4) i by (simp_all add: j_def)
  then have "buf ! j = 0" using assms(1) by (simp add: zero_from_def)
  then show "take k (drop (nat lo) buf) ! i = replicate k 0 ! i"
    using i assms(3,4) by (simp add: j_def)
qed

lemma read_entry_zero:
  assumes "zero_from buf n" and "n \<le> a" and "0 \<le> a" and "a + 21 \<le> int (length buf)"
  shows "read_entry buf a = (0, 0, 0)"
proof -
  have 1: "take 10 (drop (nat (a + 1)) buf) = replicate 10 0"
    using assms by (intro zero_slice [of buf n]) simp_all
  have 2: "take 10 (drop (nat (a + 11)) buf) = replicate 10 0"
    using assms by (intro zero_slice [of buf n]) simp_all
  have "buf ! nat a = 0" using assms by (simp add: zero_from_def)
  then show ?thesis by (simp add: read_entry_def 1 2 Varint_zeros)
qed

lemma Varint_slice_zero:
  assumes "zero_from buf n" and "n \<le> lo" and "0 \<le> lo" and "lo + 10 \<le> int (length buf)"
  shows "Varint_slice buf lo (lo + 10) = Some (0, 1)"
proof -
  have "take 10 (drop (nat lo) buf) = replicate 10 0"
    using assms by (intro zero_slice [of buf n]) simp_all
  then show ?thesis using assms(3,4)
    by (simp add: Varint_slice_def get_slice_def valid_slice_def Varint_zeros)
qed

lemma get_slice_append:
  "hi \<le> int (length buf) \<Longrightarrow> get_slice (buf @ zs) lo hi = get_slice buf lo hi"
  by (auto simp: get_slice_def valid_slice_def)

lemma read_entry_append:
  assumes "0 \<le> a" and "a + 21 \<le> int (length buf)"
  shows "read_entry (buf @ zs) a = read_entry buf a"
proof -
  have "nat a < length buf" using assms by simp
  then have 0: "(buf @ zs) ! nat a = buf ! nat a" by (simp add: nth_append)
  have "get_slice (buf @ zs) (a + 1) (a + 11) = get_slice buf (a + 1) (a + 11)"
    using assms by (intro get_slice_append) simp
  then have 1: "take 10 (drop (nat (a + 1)) (buf @ zs)) = take 10 (drop (nat (a + 1)) buf)"
    using assms by (simp add: get_slice_def valid_slice_def)
  have "get_slice (buf @ zs) (a + 11) (a + 21) = get_slice buf (a + 11) (a + 21)"
    using assms by (intro get_slice_append) simp
  then have 2: "take 10 (drop (nat (a + 11)) (buf @ zs)) = take 10 (drop (nat (a + 11)) buf)"
    using assms by (simp add: get_slice_def valid_slice_def)
  show ?thesis unfolding read_entry_def 0 1 2 ..
qed

text \<open>the walk only depends on the links of the buckets it visits\<close>

lemma coords_cong:
  assumes "layout_ok ht" and "in_table ht b e" and "layout_ok ht'"
    and "ht_conf ht' = ht_conf ht" and "numBuckets ht \<le> numBuckets ht'"
    and "\<forall>c \<in> set (coords ht e b). nextBucket ht' (fst c) = nextBucket ht (fst c)"
  shows "coords ht' e b = coords ht e b"
  using assms(1,2,6)
proof (induction b e rule: walk_induct)
  case (last b e)
  have it': "in_table ht' b e" using last(1) assms(4,5) by (simp add: in_table_def)
  have "nextBucket ht' b = nextBucket ht b" using last(3,4) by simp
  then have "next_entry ht' e b = next_entry ht e b"
    by (simp add: next_entry_def assms(4))
  then show ?case using coords_unfold [OF assms(3) it'] last by simp
next
  case (step b e b' e')
  have it': "in_table ht' b e" using step(1) assms(4,5) by (simp add: in_table_def)
  have "nextBucket ht' b = nextBucket ht b" using step(5,7) by simp
  then have "next_entry ht' e b = next_entry ht e b"
    by (simp add: next_entry_def assms(4))
  moreover have "coords ht' e' b' = coords ht e' b'" using step(5,6,7) by simp
  ultimately show ?case using coords_unfold [OF assms(3) it'] step by simp
qed

text \<open>a bucket without a successor\<close>

lemma coords_single_bucket:
  assumes "layout_ok ht" and "in_table ht b e" and "nextBucket ht b = Inr 0"
  shows "coords ht e b = map (\<lambda>e'. (b, e')) [e .. PerBucket (ht_conf ht) - 1]"
  using assms(2)
proof (induction "nat (PerBucket (ht_conf ht) - e)" arbitrary: e rule: less_induct)
  case less
  have e: "0 \<le> e" "e < PerBucket (ht_conf ht)" using less.prems by (simp_all add: in_table_def)
  show ?case
  proof (cases "e + 1 = PerBucket (ht_conf ht)")
    case True
    then have "next_entry ht e b = Inr None" using assms(3) by (simp add: next_entry_def)
    moreover have "[e .. PerBucket (ht_conf ht) - 1] = [e]" using True by (simp add: upto.simps)
    ultimately show ?thesis using coords_unfold [OF assms(1) less.prems] by simp
  next
    case False
    then have n: "next_entry ht e b = Inr (Some (e + 1, b))" by (simp add: next_entry_def)
    have it: "in_table ht b (e + 1)" using less.prems False by (simp add: in_table_def)
    have "coords ht (e + 1) b = map (\<lambda>e'. (b, e')) [e + 1 .. PerBucket (ht_conf ht) - 1]"
      using e False it by (intro less.hyps) simp_all
    moreover have "[e .. PerBucket (ht_conf ht) - 1] = e # [e + 1 .. PerBucket (ht_conf ht) - 1]"
      using e by (simp add: upto_rec1)
    ultimately show ?thesis using coords_unfold [OF assms(1) less.prems] n by simp
  qed
qed

lemma lastBucket_end:
  assumes "buckets_mapped ht" and "0 \<le> b" and "lastBucket ht b = Inr lb"
  shows "nextBucket ht lb = Inr 0 \<and> b \<le> lb"
  using assms(2,3)
proof (induction "nat (numBuckets ht - b)" arbitrary: b rule: less_induct)
  case less
  obtain nb where nb: "nextBucket ht b = Inr nb"
    using nextBucket_no_panic [OF assms(1) less.prems(1)] by blast
  show ?case
  proof (cases "nb = 0")
    case True
    then show ?thesis using nb less.prems by simp
  next
    case False
    then have inc: "b < nb" "nb < numBuckets ht"
      using nextBucket_increases [OF nb] by simp_all
    have "lastBucket ht nb = Inr lb" using less.prems(2) nb False by simp
    then have "nextBucket ht lb = Inr 0 \<and> nb \<le> lb"
      using inc less.prems by (intro less.hyps) simp_all
    then show ?thesis using inc by simp
  qed
qed

lemma lastBucket_in_walk:
  assumes "layout_ok ht" and "in_table ht b e" and "lastBucket ht b = Inr lb"
  shows "lb \<in> fst ` set (coords ht e b) \<and> lb < numBuckets ht"
  using assms
proof (induction b e rule: walk_induct)
  case (last b e)
  then have "nextBucket ht b = Inr 0"
    by (auto simp: next_entry_def split: if_splits sum.splits)
  then have "lb = b" using last(4) by simp
  then show ?case using last by (simp add: in_table_def)
next
  case (step b e b' e')
  show ?case
  proof (cases "b' = b")
    case True
    then show ?thesis using step by simp
  next
    case False
    then have "nextBucket ht b = Inr b'" "b' \<noteq> 0" using step(2,4) step(1)
      by (auto simp: next_entry_def in_table_def split: if_splits sum.splits)
    then have "lastBucket ht b' = Inr lb" using step(7) by simp
    then show ?thesis using step by simp
  qed
qed

section \<open>Well-formed tables\<close>

text \<open>
  The invariant of a table that was built by \<open>Put\<close> and \<open>Remove\<close> from an empty one:
  \<open>Used\<close> is the end of the last bucket and the bytes after it are zero, the links do
  not depend on \<open>numBuckets\<close> (a stored link is 0 or a valid bucket number), and the
  chains of distinct head buckets share no bucket.
\<close>

definition head :: "HashTable \<Rightarrow> int \<Rightarrow> bool" where
  "head ht h \<longleftrightarrow> 0 \<le> h \<and> h < InitialBuckets (ht_conf ht)"

definition slots :: "HashTable \<Rightarrow> int \<Rightarrow> (byte \<times> go_int \<times> go_int) list" where
  "slots ht h = map (entry_at ht) (coords ht 0 h)"

definition links_stable :: "HashTable \<Rightarrow> bool" where
  "links_stable ht \<longleftrightarrow>
     (\<forall>b M. 0 \<le> b \<and> b < numBuckets ht \<and> numBuckets ht \<le> M \<longrightarrow>
        nextBucket (ht\<lparr>numBuckets := M\<rparr>) b = nextBucket ht b)"

definition chains_disjoint :: "HashTable \<Rightarrow> bool" where
  "chains_disjoint ht \<longleftrightarrow>
     (\<forall>h h'. head ht h \<and> head ht h' \<and> h \<noteq> h' \<longrightarrow>
        fst ` set (coords ht 0 h) \<inter> fst ` set (coords ht 0 h') = {})"

definition table_ok :: "HashTable \<Rightarrow> bool" where
  "table_ok ht \<longleftrightarrow>
     layout_ok ht \<and> Used ht = numBuckets ht * BucketSize (ht_conf ht) \<and>
     Size ht = int (length (Buf ht)) \<and> 0 < Growth ht \<and>
     zero_from (Buf ht) (Used ht) \<and> links_stable ht \<and> chains_disjoint ht"

lemma head_in_table: "layout_ok ht \<Longrightarrow> head ht h \<Longrightarrow> in_table ht h 0"
  by (simp add: layout_ok_def head_def in_table_def)

lemma nextBucket_same_header:
  assumes "ht_conf ht' = ht_conf ht" and "numBuckets ht' = numBuckets ht"
    and "Varint_slice (Buf ht') (b * BucketSize (ht_conf ht)) (b * BucketSize (ht_conf ht) + 10)
       = Varint_slice (Buf ht) (b * BucketSize (ht_conf ht)) (b * BucketSize (ht_conf ht) + 10)"
  shows "nextBucket ht' b = nextBucket ht b"
  using assms by (simp add: nextBucket_def Let_def split: option.splits prod.splits)

lemma header_bounds:
  assumes "layout_ok ht" and "0 \<le> b" and "b < numBuckets ht"
  shows "0 \<le> b * BucketSize (ht_conf ht)"
    and "b * BucketSize (ht_conf ht) + 10 \<le> (b + 1) * BucketSize (ht_conf ht)"
    and "(b + 1) * BucketSize (ht_conf ht) \<le> numBuckets ht * BucketSize (ht_conf ht)"
    and "b * BucketSize (ht_conf ht) + 10 \<le> int (length (Buf ht))"
proof -
  define s where "s = BucketSize (ht_conf ht)"
  have s: "31 \<le> s" using layout_BucketSize [OF assms(1)] assms(1) by (simp add: s_def layout_ok_def)
  show "0 \<le> b * BucketSize (ht_conf ht)" using s assms(2) by (simp add: s_def [symmetric])
  show 2: "b * BucketSize (ht_conf ht) + 10 \<le> (b + 1) * BucketSize (ht_conf ht)"
    using s by (simp add: s_def [symmetric] algebra_simps)
  show 3: "(b + 1) * BucketSize (ht_conf ht) \<le> numBuckets ht * BucketSize (ht_conf ht)"
    using s assms(3) unfolding s_def [symmetric] by (intro mult_le_next) simp_all
  show "b * BucketSize (ht_conf ht) + 10 \<le> int (length (Buf ht))"
    using 2 3 assms(1) by (simp add: layout_ok_def)
qed

lemma headers_disjoint:
  assumes "layout_ok ht" and "b \<noteq> b'"
  shows "b * BucketSize (ht_conf ht) + 10 \<le> b' * BucketSize (ht_conf ht)
       \<or> b' * BucketSize (ht_conf ht) + 10 \<le> b * BucketSize (ht_conf ht)"
proof -
  define s where "s = BucketSize (ht_conf ht)"
  have s: "31 \<le> s" using layout_BucketSize [OF assms(1)] assms(1) by (simp add: s_def layout_ok_def)
  show ?thesis
  proof (cases "b < b'")
    case True
    then have "(b + 1) * s \<le> b' * s" using s by (intro mult_le_next) simp_all
    then show ?thesis using s by (simp add: s_def [symmetric] algebra_simps)
  next
    case False
    then have "b' < b" using assms(2) by simp
    then have "(b' + 1) * s \<le> b * s" using s by (intro mult_le_next) simp_all
    then show ?thesis using s by (simp add: s_def [symmetric] algebra_simps)
  qed
qed

subsection \<open>Writing into a slot\<close>

lemma frame_step:
  assumes ok: "table_ok ht" and h: "head ht h" and j: "j < length (coords ht 0 h)"
    and c: "coords ht 0 h ! j = (b, e)"
    and f: "ht_conf ht' = ht_conf ht" "numBuckets ht' = numBuckets ht" "Used ht' = Used ht"
           "Size ht' = Size ht" "Growth ht' = Growth ht"
    and fr: "agree_outside (Buf ht) (Buf ht') (entry_addr ht b e) hi" "hi \<le> entry_addr ht b e + 21"
    and x: "entry_at ht' (b, e) = x"
  shows "table_ok ht'"
    and "slots ht' h = (slots ht h)[j := x]"
    and "\<forall>h'. head ht h' \<and> h' \<noteq> h \<longrightarrow> slots ht' h' = slots ht h'"
proof -
  have lay: "layout_ok ht" using ok by (simp add: table_ok_def)
  have it: "in_table ht h 0" using head_in_table [OF lay h] .
  have inj: "in_table ht b e"
    using coords_in_table [OF lay it] j c nth_mem [of j "coords ht 0 h"] by auto
  have sl: "same_links ht ht'"
    using f fr by (intro frame_same_links [OF lay inj, where hi = hi]) simp_all
  have lay': "layout_ok ht'" using same_links_layout [OF sl lay] .
  have len: "length (Buf ht') = length (Buf ht)" using fr(1) by (simp add: agree_outside_def)
  have co: "coords ht' 0 h' = coords ht 0 h'" if "head ht h'" for h'
    using same_links_coords [OF sl lay head_in_table [OF lay that]] .
  have "entry_addr ht b e + 21 \<le> Used ht"
  proof -
    have "0 \<le> b" "b < numBuckets ht" using inj by (simp_all add: in_table_def)
    from header_bounds(3) [OF lay this] entry_addr_bounds(2) [OF lay inj]
    show ?thesis using ok by (simp add: table_ok_def)
  qed
  then have z: "zero_from (Buf ht') (Used ht')"
    using ok fr len by (auto simp: table_ok_def zero_from_def agree_outside_def f)
  have ls: "links_stable ht'"
    unfolding links_stable_def
  proof (intro allI impI)
    fix b' M assume a: "0 \<le> b' \<and> b' < numBuckets ht' \<and> numBuckets ht' \<le> M"
    have d: "b' * BucketSize (ht_conf ht) + 10 \<le> entry_addr ht b e
           \<or> hi \<le> b' * BucketSize (ht_conf ht)"
      using header_entry_disjoint [OF lay inj, of b'] a fr(2) by auto
    have "nextBucket (ht'\<lparr>numBuckets := M\<rparr>) b' = nextBucket (ht\<lparr>numBuckets := M\<rparr>) b'"
      using fr(1) d f by (intro nextBucket_agree [where lo = "entry_addr ht b e" and hi = hi]) simp_all
    also have "\<dots> = nextBucket ht b'" using ok a by (simp add: table_ok_def links_stable_def f)
    also have "\<dots> = nextBucket ht' b'" using sl a by (simp add: same_links_def)
    finally show "nextBucket (ht'\<lparr>numBuckets := M\<rparr>) b' = nextBucket ht' b'" .
  qed
  have hd: "head ht' = head ht" by (simp add: head_def fun_eq_iff f)
  have cd: "chains_disjoint ht'"
    using ok co by (simp add: table_ok_def chains_disjoint_def hd)
  show "table_ok ht'"
    using ok lay' z ls cd len by (simp add: table_ok_def f)
  show "slots ht' h = (slots ht h)[j := x]"
    using entries_after_write [OF lay it j f(1,2), of hi x] fr x c co [OF h]
    by (simp add: slots_def)
  show "\<forall>h'. head ht h' \<and> h' \<noteq> h \<longrightarrow> slots ht' h' = slots ht h'"
  proof (intro allI impI)
    fix h' assume h': "head ht h' \<and> h' \<noteq> h"
    have dis: "fst ` set (coords ht 0 h) \<inter> fst ` set (coords ht 0 h') = {}"
      using ok h h' by (simp add: table_ok_def chains_disjoint_def)
    have bin: "b \<in> fst ` set (coords ht 0 h)"
      using nth_mem [OF j] c by (metis fst_conv image_eqI)
    have "entry_at ht' c' = entry_at ht c'" if c': "c' \<in> set (coords ht 0 h')" for c'
    proof -
      obtain b' e' where p: "c' = (b', e')" by (metis surj_pair)
      have "b' \<in> fst ` set (coords ht 0 h')" using c' p by (metis fst_conv image_eqI)
      then have "b' \<noteq> b" using dis bin by blast
      moreover have "in_table ht b' e'"
        using coords_in_table [OF lay head_in_table [OF lay conjunct1 [OF h']]] c' p by auto
      ultimately show ?thesis
        using f(1) fr unfolding p by (intro frame_entry_at [OF lay inj, where hi = hi]) simp_all
    qed
    then show "slots ht' h' = slots ht h'"
      using co h' by (simp add: slots_def)
  qed
qed

subsection \<open>Appending a bucket\<close>

definition grown_to :: "HashTable \<Rightarrow> nat \<Rightarrow> int \<Rightarrow> int \<Rightarrow> HashTable" where
  "grown_to ht k lb M =
     ht\<lparr>Buf := store (Buf ht @ replicate k 0) (lb * BucketSize (ht_conf ht))
                 (PutVarint (word_of_int (numBuckets ht))),
        Size := Size ht + int k, Used := Used ht + BucketSize (ht_conf ht), numBuckets := M\<rparr>"

definition grow_pre :: "HashTable \<Rightarrow> nat \<Rightarrow> int \<Rightarrow> bool" where
  "grow_pre ht k lb \<longleftrightarrow>
     table_ok ht \<and> 0 \<le> lb \<and> lb < numBuckets ht \<and> nextBucket ht lb = Inr 0 \<and>
     Used ht + BucketSize (ht_conf ht) \<le> Size ht + int k \<and> numBuckets ht < 2 ^ 63"

lemma grown_fields:
  "ht_conf (grown_to ht k lb M) = ht_conf ht"
  "numBuckets (grown_to ht k lb M) = M"
  "Used (grown_to ht k lb M) = Used ht + BucketSize (ht_conf ht)"
  "Size (grown_to ht k lb M) = Size ht + int k"
  "Growth (grown_to ht k lb M) = Growth ht"
  "(grown_to ht k lb M)\<lparr>numBuckets := M'\<rparr> = grown_to ht k lb M'"
  by (simp_all add: grown_to_def)

lemma grown_buffer:
  assumes "grow_pre ht k lb"
  shows "length (Buf (grown_to ht k lb M)) = length (Buf ht) + k"
    and "agree_outside (Buf ht @ replicate k 0) (Buf (grown_to ht k lb M))
           (lb * BucketSize (ht_conf ht)) (lb * BucketSize (ht_conf ht) + 10)"
    and "zero_from (Buf ht @ replicate k 0) (Used ht)"
    and "(numBuckets ht + 1) * BucketSize (ht_conf ht) \<le> int (length (Buf ht)) + int k"
    and "\<exists>rest. take 10 (drop (nat (lb * BucketSize (ht_conf ht))) (Buf (grown_to ht k lb M)))
           = PutVarint (word_of_int (numBuckets ht)) @ rest"
proof -
  have ok: "table_ok ht" and lb: "0 \<le> lb" "lb < numBuckets ht"
    and room: "Used ht + BucketSize (ht_conf ht) \<le> Size ht + int k"
    using assms by (simp_all add: grow_pre_def)
  have lay: "layout_ok ht" using ok by (simp add: table_ok_def)
  define lo where "lo = lb * BucketSize (ht_conf ht)"
  define n where "n = nat lo"
  define buf1 where "buf1 = Buf ht @ replicate k 0"
  define pv where "pv = PutVarint (word_of_int (numBuckets ht) :: go_int)"
  define buf2 where "buf2 = store buf1 lo pv"
  have B: "Buf (grown_to ht k lb M) = buf2"
    by (simp add: grown_to_def buf2_def buf1_def lo_def pv_def)
  have hb: "0 \<le> lo" "lo + 10 \<le> int (length (Buf ht))"
    using header_bounds(1,4) [OF lay lb] by (simp_all add: lo_def)
  have pv: "length pv \<le> 10" by (simp add: pv_def PutVarint_length)
  have n: "n + 10 \<le> length (Buf ht)" "lo = int n" using hb by (simp_all add: n_def)
  have st: "nat lo + length pv \<le> length buf1" using n pv by (simp add: buf1_def)
  have l2: "length buf2 = length buf1" using hb(1) st by (simp add: buf2_def length_store)
  show "length (Buf (grown_to ht k lb M)) = length (Buf ht) + k"
    using l2 by (simp add: B buf1_def)
  have "agree_outside buf1 buf2 lo (lo + int (length pv))"
    unfolding buf2_def using hb(1) st by (rule agree_outside_store)
  then have "agree_outside buf1 buf2 lo (lo + 10)"
    using pv by (auto simp: agree_outside_def)
  then show "agree_outside (Buf ht @ replicate k 0) (Buf (grown_to ht k lb M))
           (lb * BucketSize (ht_conf ht)) (lb * BucketSize (ht_conf ht) + 10)"
    by (simp add: B buf1_def lo_def)
  have "zero_from (Buf ht) (Used ht)" using ok unfolding table_ok_def by blast
  then show "zero_from (Buf ht @ replicate k 0) (Used ht)"
    by (auto simp: zero_from_def nth_append)
  show "(numBuckets ht + 1) * BucketSize (ht_conf ht) \<le> int (length (Buf ht)) + int k"
    using room ok by (simp add: table_ok_def algebra_simps)
  have "\<exists>rest. take 10 (drop n buf2) = pv @ rest"
  proof (rule prefix_by_nth)
    show "length pv \<le> length (take 10 (drop n buf2))" using pv n l2 by (simp add: buf1_def)
    have "\<forall>i < length buf1. buf2 ! i = (if n \<le> i \<and> i < n + length pv then pv ! (i - n) else buf1 ! i)"
      using hb(1) st by (simp add: buf2_def nth_store n_def)
    then show "\<forall>i < length pv. take 10 (drop n buf2) ! i = pv ! i"
      using pv n l2 by (simp add: buf1_def)
  qed
  then show "\<exists>rest. take 10 (drop (nat (lb * BucketSize (ht_conf ht))) (Buf (grown_to ht k lb M)))
           = PutVarint (word_of_int (numBuckets ht)) @ rest"
    by (simp add: B n_def lo_def pv_def)
qed

lemma grown_layout:
  assumes "grow_pre ht k lb"
  shows "layout_ok (grown_to ht k lb (numBuckets ht + 1))"
proof -
  have "layout_ok ht" using assms by (simp add: grow_pre_def table_ok_def)
  then show ?thesis
    using grown_buffer(1) [OF assms, of "numBuckets ht + 1"] grown_buffer(4) [OF assms]
    by (simp add: layout_ok_def grown_fields)
qed

lemma grown_links:
  assumes "grow_pre ht k lb" and "numBuckets ht + 1 \<le> M"
  shows "\<forall>b. 0 \<le> b \<and> b < numBuckets ht \<and> b \<noteq> lb \<longrightarrow>
            nextBucket (grown_to ht k lb M) b = nextBucket ht b"
    and "nextBucket (grown_to ht k lb M) lb = Inr (numBuckets ht)"
    and "nextBucket (grown_to ht k lb M) (numBuckets ht) = Inr 0"
proof -
  have ok: "table_ok ht" and lb: "0 \<le> lb" "lb < numBuckets ht"
    and bound: "numBuckets ht < 2 ^ 63"
    using assms by (simp_all add: grow_pre_def)
  have lay: "layout_ok ht" using ok by (simp add: table_ok_def)
  define s where "s = BucketSize (ht_conf ht)"
  define g where "g = grown_to ht k lb M"
  define buf1 where "buf1 = Buf ht @ replicate k 0"
  note gb = grown_buffer(1) [OF assms(1), of M, folded g_def s_def buf1_def]
    grown_buffer(2) [OF assms(1), of M, folded g_def s_def buf1_def]
    grown_buffer(3) [OF assms(1), folded g_def s_def buf1_def]
    grown_buffer(4) [OF assms(1), folded g_def s_def buf1_def]
    grown_buffer(5) [OF assms(1), of M, folded g_def s_def buf1_def]
  have s: "31 \<le> s" using layout_BucketSize [OF lay] lay by (simp add: s_def layout_ok_def)
  have N: "0 < numBuckets ht" "InitialBuckets (ht_conf ht) \<le> numBuckets ht"
    using lay by (simp_all add: layout_ok_def)
  show "\<forall>b. 0 \<le> b \<and> b < numBuckets ht \<and> b \<noteq> lb \<longrightarrow>
            nextBucket (grown_to ht k lb M) b = nextBucket ht b"
  proof (intro allI impI)
    fix b assume b: "0 \<le> b \<and> b < numBuckets ht \<and> b \<noteq> lb"
    have hb: "b * s + 10 \<le> int (length (Buf ht))"
      using header_bounds(4) [OF lay] b by (simp add: s_def)
    have d: "b * s + 10 \<le> lb * s \<or> lb * s + 10 \<le> b * s"
      using headers_disjoint [OF lay, of b lb] b by (simp add: s_def)
    have "Varint_slice (Buf g) (b * s) (b * s + 10) = Varint_slice buf1 (b * s) (b * s + 10)"
      using gb(2) d by (intro Varint_slice_agree [where lo = "lb * s" and hi = "lb * s + 10"]) auto
    also have "\<dots> = Varint_slice (Buf ht) (b * s) (b * s + 10)"
      using hb by (simp add: Varint_slice_def buf1_def get_slice_append)
    finally have "nextBucket g b = nextBucket (ht\<lparr>numBuckets := M\<rparr>) b"
      by (intro nextBucket_same_header) (simp_all add: g_def grown_fields s_def)
    also have "\<dots> = nextBucket ht b"
      using ok b assms(2) by (simp add: table_ok_def links_stable_def)
    finally show "nextBucket (grown_to ht k lb M) b = nextBucket ht b" by (simp add: g_def)
  qed
  have hl: "0 \<le> lb * s" "lb * s + 10 \<le> int (length (Buf ht))" "(lb + 1) * s \<le> numBuckets ht * s"
    using header_bounds(1,4,3) [OF lay lb] by (simp_all add: s_def)
  have len: "int (length (Buf g)) = int (length (Buf ht)) + int k" using gb(1) by simp
  obtain rest where "take 10 (drop (nat (lb * s)) (Buf g))
      = PutVarint (word_of_int (numBuckets ht)) @ rest"
    using gb(5) by blast
  then have "Varint_slice (Buf g) (lb * s) (lb * s + 10)
      = Some (Varint (PutVarint (word_of_int (numBuckets ht)) @ rest))"
    using hl len by (simp add: Varint_slice_def get_slice_def valid_slice_def)
  moreover obtain w m where wm: "Varint (PutVarint (word_of_int (numBuckets ht)) @ rest) = (w, m)"
    by (metis surj_pair)
  moreover have "w = word_of_int (numBuckets ht)"
    using Varint_PutVarint [of "word_of_int (numBuckets ht)" rest] wm by simp
  then have "sint w = numBuckets ht"
    using N bound by (simp add: sint_word_of_int)
  moreover have "0 < m"
    using Varint_PutVarint_count [of "word_of_int (numBuckets ht)" rest] wm by simp
  ultimately have "nextBucket g lb = Inr (numBuckets ht)"
    using lb N assms(2) by (simp add: nextBucket_def Let_def g_def grown_fields s_def)
  then show "nextBucket (grown_to ht k lb M) lb = Inr (numBuckets ht)" by (simp add: g_def)
  have u: "Used ht = numBuckets ht * s" using ok by (simp add: table_ok_def s_def)
  have top: "numBuckets ht * s + 10 \<le> int (length buf1)"
    using gb(4) s by (simp add: buf1_def algebra_simps)
  have "Varint_slice (Buf g) (numBuckets ht * s) (numBuckets ht * s + 10)
      = Varint_slice buf1 (numBuckets ht * s) (numBuckets ht * s + 10)"
    using gb(2) hl s
    by (intro Varint_slice_agree [where lo = "lb * s" and hi = "lb * s + 10"])
       (auto simp: algebra_simps)
  also have "\<dots> = Some (0, 1)"
    using gb(3) u N s top by (intro Varint_slice_zero [where n = "Used ht"]) simp_all
  finally have "nextBucket g (numBuckets ht) = Inr 0"
    by (simp add: nextBucket_def Let_def g_def grown_fields s_def)
  then show "nextBucket (grown_to ht k lb M) (numBuckets ht) = Inr 0" by (simp add: g_def)
qed

lemma grown_in_table:
  "in_table ht b e \<Longrightarrow> in_table (grown_to ht k lb (numBuckets ht + 1)) b e"
  "0 \<le> numBuckets ht \<Longrightarrow> 0 \<le> e \<Longrightarrow> e < PerBucket (ht_conf ht) \<Longrightarrow>
     in_table (grown_to ht k lb (numBuckets ht + 1)) (numBuckets ht) e"
  by (simp_all add: in_table_def grown_fields)

lemma grown_entries:
  assumes "grow_pre ht k lb"
  shows "in_table ht b e \<Longrightarrow>
           entry_at (grown_to ht k lb (numBuckets ht + 1)) (b, e) = entry_at ht (b, e)"
    and "0 \<le> e \<Longrightarrow> e < PerBucket (ht_conf ht) \<Longrightarrow>
           entry_at (grown_to ht k lb (numBuckets ht + 1)) (numBuckets ht, e) = (0, 0, 0)"
proof -
  have ok: "table_ok ht" and lb: "0 \<le> lb" "lb < numBuckets ht"
    using assms by (simp_all add: grow_pre_def)
  have lay: "layout_ok ht" using ok by (simp add: table_ok_def)
  define g where "g = grown_to ht k lb (numBuckets ht + 1)"
  define buf1 where "buf1 = Buf ht @ replicate k 0"
  note gb = grown_buffer(1) [OF assms(1), of "numBuckets ht + 1", folded g_def buf1_def]
    grown_buffer(2) [OF assms(1), of "numBuckets ht + 1", folded g_def buf1_def]
    grown_buffer(3) [OF assms(1), folded g_def buf1_def]
  have layg: "layout_ok g" using grown_layout [OF assms] by (simp add: g_def)
  have ea: "entry_addr g b' e' = entry_addr ht b' e'" for b' e'
    by (simp add: entry_addr_def g_def grown_fields)
  have len: "length buf1 = length (Buf g)" using gb(1) by (simp add: buf1_def)
  have rd: "read_entry (Buf g) (entry_addr ht b' e') = read_entry buf1 (entry_addr ht b' e')"
    if "in_table g b' e'" for b' e'
  proof -
    have "lb * BucketSize (ht_conf ht) + 10 \<le> entry_addr ht b' e'
         \<or> entry_addr ht b' e' + 21 \<le> lb * BucketSize (ht_conf ht)"
      using header_entry_disjoint [OF layg that lb(1)] by (simp add: ea) (simp add: g_def grown_fields)
    moreover have "0 \<le> entry_addr ht b' e'" "entry_addr ht b' e' + 21 \<le> int (length buf1)"
      using entry_addr_bounds(3,4) [OF layg that] by (simp_all add: ea len)
    ultimately show ?thesis
      using gb(2) by (intro read_entry_agree [where lo = "lb * BucketSize (ht_conf ht)"
                               and hi = "lb * BucketSize (ht_conf ht) + 10"]) auto
  qed
  show "entry_at (grown_to ht k lb (numBuckets ht + 1)) (b, e) = entry_at ht (b, e)"
    if it: "in_table ht b e"
  proof -
    have "in_table g b e" using it by (simp add: g_def grown_in_table)
    then have "read_entry (Buf g) (entry_addr ht b e) = read_entry buf1 (entry_addr ht b e)"
      by (rule rd)
    also have "\<dots> = read_entry (Buf ht) (entry_addr ht b e)"
      unfolding buf1_def using entry_addr_bounds(3,4) [OF lay it] by (rule read_entry_append)
    finally show ?thesis by (simp add: entry_at_def ea g_def [symmetric])
  qed
  show "entry_at (grown_to ht k lb (numBuckets ht + 1)) (numBuckets ht, e) = (0, 0, 0)"
    if e: "0 \<le> e" "e < PerBucket (ht_conf ht)"
  proof -
    have N: "0 \<le> numBuckets ht" using lb by simp
    have it: "in_table g (numBuckets ht) e" using e N by (simp add: g_def grown_in_table)
    have "read_entry (Buf g) (entry_addr ht (numBuckets ht) e)
        = read_entry buf1 (entry_addr ht (numBuckets ht) e)"
      using it by (rule rd)
    also have "\<dots> = (0, 0, 0)"
    proof (rule read_entry_zero [where n = "Used ht"])
      show "zero_from buf1 (Used ht)" using gb(3) .
      show "Used ht \<le> entry_addr ht (numBuckets ht) e"
        using entry_addr_bounds(1) [OF layg it] ok
        by (simp add: ea table_ok_def) (simp add: g_def grown_fields)
      show "0 \<le> entry_addr ht (numBuckets ht) e"
        using entry_addr_bounds(3) [OF layg it] by (simp add: ea)
      show "entry_addr ht (numBuckets ht) e + 21 \<le> int (length buf1)"
        using entry_addr_bounds(4) [OF layg it] by (simp add: ea len)
    qed
    finally show ?thesis by (simp add: entry_at_def ea g_def [symmetric])
  qed
qed

lemma grown_coords_last:
  assumes gp: "grow_pre ht k lb" and it: "in_table ht b e" and lb: "lastBucket ht b = Inr lb"
  shows "coords (grown_to ht k lb (numBuckets ht + 1)) e b =
           coords ht e b @ map (\<lambda>e'. (numBuckets ht, e')) [0 .. PerBucket (ht_conf ht) - 1]"
proof -
  define g where "g = grown_to ht k lb (numBuckets ht + 1)"
  have lay: "layout_ok ht" using gp by (simp add: grow_pre_def table_ok_def)
  have layg: "layout_ok g" using grown_layout [OF gp] by (simp add: g_def)
  have end0: "nextBucket ht lb = Inr 0" using gp by (simp add: grow_pre_def)
  have N: "0 < numBuckets ht" "1 \<le> PerBucket (ht_conf ht)" using lay by (simp_all add: layout_ok_def)
  note gl = grown_links [OF gp order_refl, folded g_def]
  have cg: "ht_conf g = ht_conf ht" by (simp add: g_def grown_fields)
  have new: "coords g 0 (numBuckets ht) =
      map (\<lambda>e'. (numBuckets ht, e')) [0 .. PerBucket (ht_conf ht) - 1]"
    using coords_single_bucket [OF layg _ gl(3), of 0] N grown_in_table(2) [of ht 0 k lb]
    by (simp add: g_def [symmetric] cg)
  have "coords g e b =
           coords ht e b @ map (\<lambda>e'. (numBuckets ht, e')) [0 .. PerBucket (ht_conf ht) - 1]"
    using lay it lb
  proof (induction b e rule: walk_induct)
    case (last b e)
    then have n0: "e + 1 = PerBucket (ht_conf ht)" "nextBucket ht b = Inr 0"
      by (auto simp: next_entry_def split: if_splits sum.splits)
    then have "lb = b" using last(4) by simp
    then have "next_entry g e b = Inr (Some (0, numBuckets ht))"
      using n0 gl(2) N by (simp add: next_entry_def cg)
    moreover have "in_table g b e" using last(1) by (simp add: g_def grown_in_table)
    ultimately show ?case
      using coords_unfold [OF layg, of b e] last(3) new by simp
  next
    case (step b e b' e')
    have itg: "in_table g b e" using step(1) by (simp add: g_def grown_in_table)
    show ?case
    proof (cases "b' = b")
      case True
      then have "e + 1 \<noteq> PerBucket (ht_conf ht)" "e' = e + 1"
        using step(2) nextBucket_increases [of ht b]
        by (auto simp: next_entry_def split: if_splits sum.splits)
      then have "next_entry g e b = Inr (Some (e', b'))"
        using True by (simp add: next_entry_def cg)
      moreover have "lastBucket ht b' = Inr lb" using step(7) True by simp
      ultimately show ?thesis
        using coords_unfold [OF layg itg] step(5,6) by simp
    next
      case False
      then have nb: "e + 1 = PerBucket (ht_conf ht)" "nextBucket ht b = Inr b'" "b' \<noteq> 0" "e' = 0"
        using step(2) by (auto simp: next_entry_def split: if_splits sum.splits)
      then have l': "lastBucket ht b' = Inr lb" using step(7) by simp
      have "b \<noteq> lb" using nb end0 by auto
      then have "nextBucket g b = nextBucket ht b"
        using gl(1) step(1) by (simp add: in_table_def)
      then have "next_entry g e b = Inr (Some (e', b'))"
        using nb by (simp add: next_entry_def cg)
      then show ?thesis
        using coords_unfold [OF layg itg] step(5,6) l' by simp
    qed
  qed
  then show ?thesis by (simp add: g_def)
qed

lemma grown_coords_other:
  assumes gp: "grow_pre ht k lb" and it: "in_table ht b e"
    and "lb \<notin> fst ` set (coords ht e b)"
  shows "coords (grown_to ht k lb (numBuckets ht + 1)) e b = coords ht e b"
proof -
  have lay: "layout_ok ht" using gp by (simp add: grow_pre_def table_ok_def)
  have "nextBucket (grown_to ht k lb (numBuckets ht + 1)) (fst c) = nextBucket ht (fst c)"
    if "c \<in> set (coords ht e b)" for c
  proof -
    obtain b' e' where c: "c = (b', e')" by (metis surj_pair)
    have "in_table ht b' e'" using coords_in_table [OF lay it] that c by auto
    moreover have "b' \<noteq> lb" using assms(3) that c by (metis fst_conv image_eqI)
    ultimately show ?thesis
      using grown_links(1) [OF gp order_refl] by (simp add: c in_table_def)
  qed
  then show ?thesis
    using grown_layout [OF gp]
    by (intro coords_cong [OF lay it]) (simp_all add: grown_fields)
qed

lemma new_slots:
  assumes "\<forall>e. 0 \<le> e \<and> e < p \<longrightarrow> f (n, e) = c"
  shows "map f (map (\<lambda>e'. (n, e')) [0 .. p - 1]) = replicate (nat p) c"
proof -
  have "map f (map (\<lambda>e'. (n, e')) [0 .. p - 1]) = map (\<lambda>e'. c) [0 .. p - 1]"
    using assms by simp
  then show ?thesis by (simp add: map_replicate_const)
qed

lemma disjoint_extend_sub: "A = X \<union> B \<Longrightarrow> B \<subseteq> {n} \<Longrightarrow> A \<subseteq> X \<union> {n}"
  by blast

lemma disjoint_extend: "A \<subseteq> X \<union> {n} \<Longrightarrow> n \<notin> Y \<Longrightarrow> X \<inter> Y = {} \<Longrightarrow> A \<inter> Y = {}"
  by blast

lemma grown_table:
  assumes gp: "grow_pre ht k lb" and h: "head ht h" and lb: "lastBucket ht h = Inr lb"
  shows "table_ok (grown_to ht k lb (numBuckets ht + 1))"
    and "slots (grown_to ht k lb (numBuckets ht + 1)) h =
           slots ht h @ replicate (nat (PerBucket (ht_conf ht))) (0, 0, 0)"
    and "\<forall>h'. head ht h' \<and> h' \<noteq> h \<longrightarrow> slots (grown_to ht k lb (numBuckets ht + 1)) h' = slots ht h'"
proof -
  define g where "g = grown_to ht k lb (numBuckets ht + 1)"
  define new where "new = map (\<lambda>e'. (numBuckets ht, e')) [0 .. PerBucket (ht_conf ht) - 1]"
  have ok: "table_ok ht" using gp by (simp add: grow_pre_def)
  have lay: "layout_ok ht" using ok by (simp add: table_ok_def)
  have layg: "layout_ok g" using grown_layout [OF gp] by (simp add: g_def)
  have it: "in_table ht h 0" using head_in_table [OF lay h] .
  have hd: "head g = head ht" by (simp add: head_def fun_eq_iff g_def grown_fields)
  have ch: "coords g 0 h = coords ht 0 h @ new"
    using grown_coords_last [OF gp it lb] by (simp add: g_def new_def)
  have lbin: "lb \<in> fst ` set (coords ht 0 h)"
    using lastBucket_in_walk [OF lay it lb] by simp
  have dis: "fst ` set (coords ht 0 h) \<inter> fst ` set (coords ht 0 h') = {}"
    if "head ht h'" "h' \<noteq> h" for h'
    using ok h that unfolding table_ok_def chains_disjoint_def by blast
  have co: "coords g 0 h' = coords ht 0 h'" if "head ht h'" "h' \<noteq> h" for h'
  proof -
    have "lb \<notin> fst ` set (coords ht 0 h')" using dis [OF that] lbin by blast
    then show ?thesis
      using grown_coords_other [OF gp head_in_table [OF lay that(1)]] by (simp add: g_def)
  qed
  have below: "b < numBuckets ht" if "b \<in> fst ` set (coords ht 0 h')" "head ht h'" for b h'
    using coords_in_table [OF lay head_in_table [OF lay that(2)]] that(1)
    by (auto simp: in_table_def)
  have newb: "fst ` set new \<subseteq> {numBuckets ht}" by (auto simp: new_def)
  have cd: "chains_disjoint g"
    unfolding chains_disjoint_def hd
  proof (intro allI impI)
    fix a b assume ab: "head ht a \<and> head ht b \<and> a \<noteq> b"
    have old: "fst ` set (coords ht 0 a) \<inter> fst ` set (coords ht 0 b) = {}"
      using ok ab unfolding table_ok_def chains_disjoint_def by blast
    have "fst ` set (coords g 0 h) = fst ` set (coords ht 0 h) \<union> fst ` set new"
      unfolding ch by (simp add: image_Un)
    then have hN: "fst ` set (coords g 0 h) \<subseteq> fst ` set (coords ht 0 h) \<union> {numBuckets ht}"
      using newb by (rule disjoint_extend_sub)
    consider "a = h" | "b = h" | "a \<noteq> h" "b \<noteq> h" by blast
    then show "fst ` set (coords g 0 a) \<inter> fst ` set (coords g 0 b) = {}"
    proof cases
      case 1
      then have "coords g 0 b = coords ht 0 b" using co ab by simp
      moreover have "numBuckets ht \<notin> fst ` set (coords ht 0 b)" using below ab by blast
      ultimately show ?thesis using old hN unfolding 1 by (simp add: disjoint_extend)
    next
      case 2
      then have "coords g 0 a = coords ht 0 a" using co ab by simp
      moreover have "numBuckets ht \<notin> fst ` set (coords ht 0 a)" using below ab by blast
      ultimately show ?thesis using old hN unfolding 2 by (simp add: disjoint_extend Int_commute)
    next
      case 3
      then show ?thesis using co ab old by simp
    qed
  qed
  have ls: "links_stable g"
    unfolding links_stable_def
  proof (intro allI impI)
    fix b M assume a: "0 \<le> b \<and> b < numBuckets g \<and> numBuckets g \<le> M"
    then have M: "numBuckets ht + 1 \<le> M" and b: "0 \<le> b" "b \<le> numBuckets ht"
      by (simp_all add: g_def grown_fields)
    have gM: "g\<lparr>numBuckets := M\<rparr> = grown_to ht k lb M" by (simp add: g_def grown_fields)
    note l1 = grown_links [OF gp M] and l2 = grown_links [OF gp order_refl, folded g_def]
    consider "b = numBuckets ht" | "b = lb" | "b < numBuckets ht" "b \<noteq> lb" using b by linarith
    then show "nextBucket (g\<lparr>numBuckets := M\<rparr>) b = nextBucket g b"
    proof cases
      case 1
      then show ?thesis using l1(3) l2(3) by (simp add: gM)
    next
      case 2
      then show ?thesis using l1(2) l2(2) by (simp add: gM)
    next
      case 3
      then show ?thesis using l1(1) l2(1) b by (simp add: gM)
    qed
  qed
  have "zero_from (Buf g) (Used g)"
    unfolding zero_from_def
  proof (intro allI impI)
    fix i assume i: "Used g \<le> int i \<and> i < length (Buf g)"
    have lbs: "0 \<le> lb" "lb < numBuckets ht" using gp by (simp_all add: grow_pre_def)
    have u: "Used ht = numBuckets ht * BucketSize (ht_conf ht)" using ok by (simp add: table_ok_def)
    have "lb * BucketSize (ht_conf ht) + 10 \<le> Used ht"
      using header_bounds(2,3) [OF lay lbs] u by simp
    moreover have "0 \<le> BucketSize (ht_conf ht)" using layout_BucketSize [OF lay] lay
      by (simp add: layout_ok_def)
    ultimately have "lb * BucketSize (ht_conf ht) + 10 \<le> int i" "Used ht \<le> int i"
      using i by (simp_all add: g_def grown_fields)
    moreover have "i < length (Buf ht @ replicate k 0)"
      using i grown_buffer(1) [OF gp, of "numBuckets ht + 1"] by (simp add: g_def)
    ultimately have "Buf g ! i = (Buf ht @ replicate k 0) ! i" "(Buf ht @ replicate k 0) ! i = 0"
      using grown_buffer(2) [OF gp, of "numBuckets ht + 1"] grown_buffer(3) [OF gp]
      by (simp_all add: agree_outside_def zero_from_def g_def)
    then show "Buf g ! i = 0" by simp
  qed
  moreover have "Used g = numBuckets g * BucketSize (ht_conf g)" "Size g = int (length (Buf g))"
      "0 < Growth g"
    using ok grown_buffer(1) [OF gp, of "numBuckets ht + 1"]
    by (simp_all add: table_ok_def g_def grown_fields algebra_simps)
  ultimately have "table_ok g" using layg ls cd by (simp add: table_ok_def)
  then show "table_ok (grown_to ht k lb (numBuckets ht + 1))" by (simp add: g_def)
  have old_e: "map (entry_at g) (coords ht 0 h') = map (entry_at ht) (coords ht 0 h')"
    if "head ht h'" for h'
  proof (rule map_cong [OF refl])
    fix c assume c: "c \<in> set (coords ht 0 h')"
    obtain b e where p: "c = (b, e)" by (metis surj_pair)
    have "in_table ht b e" using coords_in_table [OF lay head_in_table [OF lay that]] c p by auto
    then show "entry_at g c = entry_at ht c"
      using grown_entries(1) [OF gp] by (simp add: p g_def)
  qed
  have "map (entry_at g) new = replicate (nat (PerBucket (ht_conf ht))) (0, 0, 0)"
    unfolding new_def using grown_entries(2) [OF gp] by (intro new_slots) (simp add: g_def)
  then have "slots g h = slots ht h @ replicate (nat (PerBucket (ht_conf ht))) (0, 0, 0)"
    using old_e [OF h] by (simp add: slots_def ch)
  then show "slots (grown_to ht k lb (numBuckets ht + 1)) h =
           slots ht h @ replicate (nat (PerBucket (ht_conf ht))) (0, 0, 0)"
    by (simp add: g_def)
  have "slots g h' = slots ht h'" if "head ht h'" "h' \<noteq> h" for h'
    using co [OF that] old_e [OF that(1)] by (simp add: slots_def)
  then show "\<forall>h'. head ht h' \<and> h' \<noteq> h \<longrightarrow> slots (grown_to ht k lb (numBuckets ht + 1)) h' = slots ht h'"
    by (simp add: g_def)
qed

lemma lastBucket_cong:
  assumes "buckets_mapped ht" and "numBuckets ht' = numBuckets ht"
    and "\<forall>b. 0 \<le> b \<longrightarrow> nextBucket ht' b = nextBucket ht b" and "0 \<le> b"
  shows "lastBucket ht' b = lastBucket ht b"
  using assms(4)
proof (induction "nat (numBuckets ht - b)" arbitrary: b rule: less_induct)
  case less
  obtain nb where nb: "nextBucket ht b = Inr nb"
    using nextBucket_no_panic [OF assms(1) less.prems(1)] by blast
  then have nb': "nextBucket ht' b = Inr nb" using assms(3) less.prems by simp
  show ?case
  proof (cases "nb = 0")
    case True
    then show ?thesis using nb nb' by simp
  next
    case False
    then have inc: "b < nb" "nb < numBuckets ht"
      using nextBucket_increases [OF nb] by simp_all
    then have "lastBucket ht' nb = lastBucket ht nb"
      using less.prems by (intro less.hyps) simp_all
    then show ?thesis using nb nb' False by simp
  qed
qed

lemma growBucket_grown:
  assumes ok: "table_ok ht" and h: "head ht h" and bound: "numBuckets ht < 2 ^ 63"
  shows "\<exists>k lb. growBucket ht h = Some (Inr (grown_to ht k lb (numBuckets ht + 1))) \<and>
           grow_pre ht k lb \<and> lastBucket ht h = Inr lb"
proof -
  have lay: "layout_ok ht" using ok by (simp add: table_ok_def)
  have gr: "0 < Growth ht" and sz: "Size ht = int (length (Buf ht))"
    using ok by (simp_all add: table_ok_def)
  define s where "s = BucketSize (ht_conf ht)"
  obtain k where k: "EnsureSize ht s = Some (ht\<lparr>Buf := Buf ht @ replicate k 0, Size := Size ht + int k\<rparr>)"
      "Used ht + s \<le> Size ht + int k"
    using EnsureSize_grows [OF gr, of s] by blast
  define ht1 where "ht1 = ht\<lparr>Buf := Buf ht @ replicate k 0, Size := Size ht + int k\<rparr>"
  have it: "in_table ht h 0" using head_in_table [OF lay h] .
  have h0: "0 \<le> h" using h by (simp add: head_def)
  obtain lb where lb: "lastBucket ht h = Inr lb" "h \<le> lb"
    using lastBucket_returns [OF layout_mapped [OF lay] h0] by blast
  have lbN: "lb < numBuckets ht" using lastBucket_in_walk [OF lay it lb(1)] by simp
  have end0: "nextBucket ht lb = Inr 0"
    using lastBucket_end [OF layout_mapped [OF lay] h0 lb(1)] by simp
  have nx: "nextBucket ht1 b = nextBucket ht b" if "0 \<le> b" for b
  proof (cases "b < numBuckets ht")
    case True
    have "b * s + 10 \<le> int (length (Buf ht))"
      using header_bounds(4) [OF lay that True] by (simp add: s_def)
    then have "Varint_slice (Buf ht1) (b * s) (b * s + 10) = Varint_slice (Buf ht) (b * s) (b * s + 10)"
      by (simp add: Varint_slice_def ht1_def get_slice_append)
    then show ?thesis
      by (intro nextBucket_same_header) (simp_all add: ht1_def s_def)
  next
    case False
    then show ?thesis by (simp add: nextBucket_def ht1_def)
  qed
  have l1: "lastBucket ht1 h = Inr lb"
    using lastBucket_cong [OF layout_mapped [OF lay], of ht1 h] nx h0 lb(1)
    by (simp add: ht1_def)
  have hb: "0 \<le> lb * s" "lb * s + 10 \<le> int (length (Buf ht))"
    using header_bounds(1,4) [OF lay _ lbN] lb(2) h0 by (simp_all add: s_def)
  have pv: "PutVarint_slice (Buf ht1) (lb * s) (lb * s + 10) (word_of_int (numBuckets ht))
      = Some (store (Buf ht1) (lb * s) (PutVarint (word_of_int (numBuckets ht))))"
    using hb PutVarint_length [of "word_of_int (numBuckets ht)"]
    by (simp add: PutVarint_slice_def valid_slice_def ht1_def)
  have "growBucket ht h = Some (Inr (grown_to ht k lb (numBuckets ht + 1)))"
    using k(1) l1 pv
    by (simp add: growBucket_def s_def [symmetric] ht1_def [symmetric] Let_def)
       (simp add: ht1_def grown_to_def s_def)
  moreover have "grow_pre ht k lb"
    using ok lb(2) h0 lbN end0 k(2) bound by (simp add: grow_pre_def s_def)
  ultimately show ?thesis using lb(1) by blast
qed

section \<open>The slots of a chain\<close>

text \<open>
  An entry that is not live and holds the key 0 and the value 0 ends the walks of \<open>Get\<close>
  and \<open>Remove\<close>. A list of entries is \<open>tidy\<close> when no live entry comes after such an
  entry; \<open>live\<close> are the pairs of its live entries.
\<close>

definition stopper :: "byte \<times> go_int \<times> go_int \<Rightarrow> bool" where
  "stopper x \<longleftrightarrow> fst x \<noteq> 1 \<and> fst (snd x) = 0 \<and> snd (snd x) = 0"

fun tidy :: "(byte \<times> go_int \<times> go_int) list \<Rightarrow> bool" where
  "tidy [] = True"
| "tidy (x # S) = ((stopper x \<longrightarrow> (\<forall>y \<in> set S. fst y \<noteq> 1)) \<and> tidy S)"

definition live :: "(byte \<times> go_int \<times> go_int) list \<Rightarrow> (go_int \<times> go_int) list" where
  "live S = map snd (filter (\<lambda>x. fst x = 1) S)"

lemma live_Cons: "live ((f, k, v) # S) = (if f = 1 then (k, v) # live S else live S)"
  by (simp add: live_def)

lemma live_empty: "\<forall>y \<in> set S. fst y \<noteq> 1 \<Longrightarrow> live S = []"
  by (induction S) (auto simp: live_def)

lemma get_walk_tidy:
  "tidy S \<Longrightarrow> get_walk key 0 0 [] S = map snd (filter (\<lambda>p. fst p = key) (live S))"
proof (induction S)
  case Nil
  then show ?case by (simp add: live_def)
next
  case (Cons x S)
  obtain f k v where x: "x = (f, k, v)" by (metis prod_cases3)
  have IH: "get_walk key 0 0 [] S = map snd (filter (\<lambda>p. fst p = key) (live S))"
    using Cons by simp
  have u: "get_walk key 0 1 [v] S = [v] @ get_walk key 0 0 [] S"
    using get_walk_unlimited [of 1 key "[v]" S] by simp
  show ?case
  proof (cases "f = 1")
    case True
    then show ?thesis using IH u by (auto simp: x live_Cons)
  next
    case False
    show ?thesis
    proof (cases "k = 0 \<and> v = 0")
      case True
      then have "\<forall>y \<in> set S. fst y \<noteq> 1" using Cons.prems False by (simp add: x stopper_def)
      then have "live S = []" by (rule live_empty)
      then show ?thesis using False True by (simp add: x live_Cons)
    next
      case False
      then show ?thesis using IH \<open>f \<noteq> 1\<close> by (auto simp: x live_Cons)
    qed
  qed
qed

lemma put_walk_Some:
  "put_walk S = Some j \<Longrightarrow> j < length S \<and> fst (S ! j) \<noteq> 1"
proof (induction S arbitrary: j)
  case Nil
  then show ?case by simp
next
  case (Cons x S)
  obtain f k v where x: "x = (f, k, v)" by (metis prod_cases3)
  show ?case using Cons by (cases "f = 1") (auto simp: x)
qed

lemma put_walk_None: "put_walk S = None \<Longrightarrow> \<forall>x \<in> set S. fst x = 1"
proof (induction S)
  case Nil
  then show ?case by simp
next
  case (Cons x S)
  obtain f k v where x: "x = (f, k, v)" by (metis prod_cases3)
  show ?case using Cons by (cases "f = 1") (auto simp: x)
qed

lemma put_walk_append: "fst x \<noteq> 1 \<Longrightarrow> put_walk (S @ x # R) \<noteq> None"
proof (induction S)
  case Nil
  obtain f k v where x: "x = (f, k, v)" by (metis prod_cases3)
  then show ?case using Nil by simp
next
  case (Cons y S)
  obtain f k v where y: "y = (f, k, v)" by (metis prod_cases3)
  show ?case using Cons by (simp add: y)
qed

lemma tidy_put:
  "tidy S \<Longrightarrow> put_walk S = Some j \<Longrightarrow> tidy (S[j := (1, k, v)])"
proof (induction S arbitrary: j)
  case Nil
  then show ?case by simp
next
  case (Cons x S)
  obtain f k' v' where x: "x = (f, k', v')" by (metis prod_cases3)
  show ?case
  proof (cases "f = 1")
    case True
    then obtain j' where j': "j = Suc j'" "put_walk S = Some j'"
      using Cons.prems(2) by (auto simp: x)
    then show ?thesis using Cons True by (simp add: x stopper_def)
  next
    case False
    then have "j = 0" using Cons.prems(2) by (simp add: x)
    then show ?thesis using Cons.prems(1) by (simp add: stopper_def)
  qed
qed

lemma live_put:
  "put_walk S = Some j \<Longrightarrow> mset (live (S[j := (1, k, v)])) = add_mset (k, v) (mset (live S))"
proof (induction S arbitrary: j)
  case Nil
  then show ?case by simp
next
  case (Cons x S)
  obtain f k' v' where x: "x = (f, k', v')" by (metis prod_cases3)
  show ?case
  proof (cases "f = 1")
    case True
    then obtain j' where j': "j = Suc j'" "put_walk S = Some j'"
      using Cons.prems by (auto simp: x)
    then show ?thesis using Cons.IH [OF j'(2)] True by (simp add: x live_Cons)
  next
    case False
    then have "j = 0" using Cons.prems by (simp add: x)
    then show ?thesis using False by (simp add: x live_Cons)
  qed
qed

lemma remove_walk_Some:
  "remove_walk key val S = Some j \<Longrightarrow> j < length S \<and> S ! j = (1, key, val)"
proof (induction S arbitrary: j)
  case Nil
  then show ?case by simp
next
  case (Cons x S)
  obtain f k v where x: "x = (f, k, v)" by (metis prod_cases3)
  show ?case using Cons by (auto simp: x split: if_splits)
qed

lemma remove_walk_None:
  "tidy S \<Longrightarrow> remove_walk key val S = None \<Longrightarrow> (key, val) \<notin> set (live S)"
proof (induction S)
  case Nil
  then show ?case by (simp add: live_def)
next
  case (Cons x S)
  obtain f k v where x: "x = (f, k, v)" by (metis prod_cases3)
  show ?case
  proof (cases "f \<noteq> 1 \<and> k = 0 \<and> v = 0")
    case True
    then have "\<forall>y \<in> set S. fst y \<noteq> 1" using Cons.prems(1) by (simp add: x stopper_def)
    then have "live S = []" by (rule live_empty)
    then show ?thesis using True by (simp add: x live_Cons)
  next
    case False
    then show ?thesis using Cons by (auto simp: x live_Cons split: if_splits)
  qed
qed

lemma tidy_remove:
  "tidy S \<Longrightarrow> remove_walk key val S = Some j \<Longrightarrow> (key, val) \<noteq> (0, 0) \<Longrightarrow>
     tidy (S[j := (0, key, val)])"
proof (induction S arbitrary: j)
  case Nil
  then show ?case by simp
next
  case (Cons x S)
  obtain f k v where x: "x = (f, k, v)" by (metis prod_cases3)
  show ?case
  proof (cases j)
    case 0
    then show ?thesis using Cons.prems by (auto simp: stopper_def)
  next
    case (Suc j')
    then have r: "remove_walk key val S = Some j'"
      using Cons.prems(2) by (auto simp: x split: if_splits)
    have "tidy (S[j' := (0, key, val)])" using Cons.IH [OF _ r] Cons.prems by simp
    moreover have "\<forall>y \<in> set (S[j' := (0, key, val)]). fst y \<noteq> 1" if "\<forall>y \<in> set S. fst y \<noteq> 1"
      using that set_update_subset_insert [of S j' "(0, key, val)"] by auto
    ultimately show ?thesis using Cons.prems(1) Suc by simp
  qed
qed

lemma live_remove:
  "remove_walk key val S = Some j \<Longrightarrow>
     mset (live (S[j := (0, key, val)])) = mset (live S) - {#(key, val)#}"
proof (induction S arbitrary: j)
  case Nil
  then show ?case by simp
next
  case (Cons x S)
  obtain f k v where x: "x = (f, k, v)" by (metis prod_cases3)
  show ?case
  proof (cases j)
    case 0
    then have "x = (1, key, val)" using remove_walk_Some [OF Cons.prems] by simp
    then show ?thesis using 0 by (simp add: live_Cons)
  next
    case (Suc j')
    then have r: "remove_walk key val S = Some j'" and ne: "f = 1 \<longrightarrow> (k, v) \<noteq> (key, val)"
      using Cons.prems by (auto simp: x split: if_splits)
    have in_live: "(key, val) \<in> set (live S)"
      using remove_walk_Some [OF r] by (force simp: live_def intro: nth_mem)
    show ?thesis
    proof (cases "f = 1")
      case True
      then show ?thesis using Cons.IH [OF r] Suc ne in_live by (simp add: x live_Cons)
    next
      case False
      then show ?thesis using Cons.IH [OF r] Suc by (simp add: x live_Cons)
    qed
  qed
qed

lemma tidy_fresh:
  assumes "\<forall>x \<in> set S. fst x = 1"
  shows "tidy (S @ replicate n (0, 0, 0))" and "live (S @ replicate n (0, 0, 0)) = live S"
proof -
  have "tidy (replicate m (0, 0, 0))" for m by (induction m) simp_all
  then show "tidy (S @ replicate n (0, 0, 0))"
    using assms by (induction S) (auto simp: stopper_def)
  show "live (S @ replicate n (0, 0, 0)) = live S" by (simp add: live_def)
qed

section \<open>The law of Put, Remove and Get\<close>

text \<open>
  \<open>holds ht M\<close>: the table is well formed and the live entries of the chain of every head
  bucket are the pairs of the multiset \<open>M\<close> whose key hashes to that bucket; no entry that
  reads as unused comes before a live one.
\<close>

definition holds :: "HashTable \<Rightarrow> (go_int \<times> go_int) multiset \<Rightarrow> bool" where
  "holds ht M \<longleftrightarrow>
     table_ok ht \<and> (0, 0) \<notin># M \<and>
     (\<forall>h. head ht h \<longrightarrow>
        tidy (slots ht h) \<and>
        mset (live (slots ht h)) = filter_mset (\<lambda>p. sint (HashKey (ht_conf ht) (fst p)) = h) M)"

lemma head_HashKey:
  assumes "layout_ok ht"
  shows "head ht (sint (HashKey (ht_conf ht) key))"
  using layout_HashKey_in_table [OF assms, of key] HashKey_bounds [of "ht_conf ht" key] assms
  by (simp add: head_def layout_ok_def in_table_def)

lemma write_holds:
  assumes hd: "holds ht M" and kv: "(key, val) \<noteq> (0, 0)"
    and pw: "put_walk (slots ht (sint (HashKey (ht_conf ht) key))) \<noteq> None"
  shows "\<exists>ht'. Put_loop ht key val (sint (HashKey (ht_conf ht) key)) 0 = Some (Inr ht') \<and>
           holds ht' (add_mset (key, val) M) \<and> ht_conf ht' = ht_conf ht \<and>
           numBuckets ht' = numBuckets ht"
proof -
  define h where "h = sint (HashKey (ht_conf ht) key)"
  define S where "S = slots ht h"
  have ok: "table_ok ht" using hd by (simp add: holds_def)
  have lay: "layout_ok ht" using ok by (simp add: table_ok_def)
  have h: "head ht h" using head_HashKey [OF lay] by (simp add: h_def)
  have it: "in_table ht h 0" using head_in_table [OF lay h] .
  have hk: "sint (HashKey (ht_conf ht) key) = h" by (simp add: h_def)
  obtain j where j: "put_walk S = Some j" using pw by (auto simp: S_def h_def)
  have jl: "j < length (coords ht 0 h)" using put_walk_Some [OF j] by (simp add: S_def slots_def)
  obtain b e where c: "coords ht 0 h ! j = (b, e)" by (metis surj_pair)
  have inj: "in_table ht b e"
    using coords_in_table [OF lay it] jl c nth_mem [of j "coords ht 0 h"] by auto
  define ht' where "ht' = write_entry ht (b, e) key val"
  have P: "Put_loop ht key val h 0 = Some (Inr ht')"
    using Put_loop_walk [OF lay it, of key val] j
    by (simp add: S_def slots_def c ht'_def)
  note fs = frame_step [OF ok h jl c, of ht' "entry_addr ht b e + 21" "(1, key, val)"]
  have f: "ht_conf ht' = ht_conf ht" "numBuckets ht' = numBuckets ht" "Used ht' = Used ht"
    "Size ht' = Size ht" "Growth ht' = Growth ht"
    by (simp_all add: ht'_def write_entry_fields)
  have fr: "agree_outside (Buf ht) (Buf ht') (entry_addr ht b e) (entry_addr ht b e + 21)"
    using write_entry_frame [OF lay inj] by (simp add: ht'_def)
  have x: "entry_at ht' (b, e) = (1, key, val)"
    using write_entry_at [OF lay inj] by (simp add: ht'_def)
  have ok': "table_ok ht'" using fs(1) f fr x by simp
  have sh: "slots ht' h = S[j := (1, key, val)]" using fs(2) f fr x by (simp add: S_def)
  have so: "slots ht' h' = slots ht h'" if "head ht h'" "h' \<noteq> h" for h'
    using fs(3) f fr x that by simp
  have hd': "head ht' = head ht" by (simp add: head_def fun_eq_iff f)
  have "tidy (slots ht' h') \<and>
        mset (live (slots ht' h')) =
          filter_mset (\<lambda>p. sint (HashKey (ht_conf ht') (fst p)) = h') (add_mset (key, val) M)"
    if h': "head ht h'" for h'
  proof (cases "h' = h")
    case True
    have "tidy S" "mset (live S) = filter_mset (\<lambda>p. sint (HashKey (ht_conf ht) (fst p)) = h) M"
      using hd h by (simp_all add: holds_def S_def)
    then show ?thesis
      using tidy_put [OF _ j] live_put [OF j] True hk by (simp add: sh f)
  next
    case False
    have "tidy (slots ht h')"
      "mset (live (slots ht h')) = filter_mset (\<lambda>p. sint (HashKey (ht_conf ht) (fst p)) = h') M"
      using hd h' by (simp_all add: holds_def)
    then show ?thesis using False so [OF h' False] hk by (simp add: f)
  qed
  moreover have "(0, 0) \<notin># add_mset (key, val) M" using hd kv by (auto simp: holds_def)
  ultimately have "holds ht' (add_mset (key, val) M)"
    using ok' unfolding holds_def hd' by blast
  then show ?thesis using P f by (auto simp: h_def)
qed

lemma Put_holds:
  assumes hd: "holds ht M" and kv: "(key, val) \<noteq> (0, 0)" and bound: "numBuckets ht < 2 ^ 63"
  shows "\<exists>ht'. Put ht key val = Some (Inr ht') \<and> holds ht' (add_mset (key, val) M) \<and>
           ht_conf ht' = ht_conf ht \<and> numBuckets ht' \<le> numBuckets ht + 1"
proof -
  define h where "h = sint (HashKey (ht_conf ht) key)"
  have ok: "table_ok ht" using hd by (simp add: holds_def)
  have lay: "layout_ok ht" using ok by (simp add: table_ok_def)
  have h: "head ht h" using head_HashKey [OF lay] by (simp add: h_def)
  have it: "in_table ht h 0" using head_in_table [OF lay h] .
  show ?thesis
  proof (cases "put_walk (slots ht h)")
    case (Some j)
    then have "put_walk (slots ht (sint (HashKey (ht_conf ht) key))) \<noteq> None" by (simp add: h_def)
    from write_holds [OF hd kv this] show ?thesis by (auto simp: Put_def)
  next
    case None
    obtain k lb where g: "growBucket ht h = Some (Inr (grown_to ht k lb (numBuckets ht + 1)))"
        "grow_pre ht k lb" "lastBucket ht h = Inr lb"
      using growBucket_grown [OF ok h bound] by blast
    define g where "g = grown_to ht k lb (numBuckets ht + 1)"
    note gt = grown_table [OF g(2) h g(3), folded g_def]
    have cg: "ht_conf g = ht_conf ht" "numBuckets g = numBuckets ht + 1"
      by (simp_all add: g_def grown_fields)
    have hdg: "head g = head ht" by (simp add: head_def fun_eq_iff cg)
    have live_all: "\<forall>x \<in> set (slots ht h). fst x = 1" using put_walk_None [OF None] .
    have "tidy (slots g h') \<and>
          mset (live (slots g h')) = filter_mset (\<lambda>p. sint (HashKey (ht_conf g) (fst p)) = h') M"
      if h': "head ht h'" for h'
    proof (cases "h' = h")
      case True
      have "mset (live (slots ht h)) = filter_mset (\<lambda>p. sint (HashKey (ht_conf ht) (fst p)) = h) M"
        using hd h by (simp add: holds_def)
      then show ?thesis
        using tidy_fresh [OF live_all] True by (simp add: gt(2) cg)
    next
      case False
      then show ?thesis using hd h' gt(3) by (simp add: holds_def cg)
    qed
    then have hg: "holds g M"
      using gt(1) hd unfolding holds_def hdg by blast
    have "1 \<le> PerBucket (ht_conf ht)" using lay by (simp add: layout_ok_def)
    then obtain n where "nat (PerBucket (ht_conf ht)) = Suc n"
      by (cases "nat (PerBucket (ht_conf ht))") auto
    then have "put_walk (slots g h) \<noteq> None"
      using put_walk_append [of "(0, 0, 0)" "slots ht h"] by (simp add: gt(2))
    then have "put_walk (slots g (sint (HashKey (ht_conf g) key))) \<noteq> None"
      by (simp add: cg h_def)
    from write_holds [OF hg kv this]
    obtain ht' where ht': "Put_loop g key val (sint (HashKey (ht_conf g) key)) 0 = Some (Inr ht')"
        "holds ht' (add_mset (key, val) M)" "ht_conf ht' = ht_conf g" "numBuckets ht' = numBuckets g"
      by blast
    have "Put ht key val = Put_loop g key val (sint (HashKey (ht_conf g) key)) 0"
      using Put_loop_walk [OF lay it, of key val] None g(1)
      by (simp add: Put_def h_def [symmetric] slots_def g_def)
    then show ?thesis using ht' by (simp add: cg)
  qed
qed

lemma Remove_holds:
  assumes hd: "holds ht M"
  shows "\<exists>ht'. Remove ht key val = Inr ht' \<and> holds ht' (M - {#(key, val)#}) \<and>
           ht_conf ht' = ht_conf ht \<and> numBuckets ht' = numBuckets ht"
proof -
  define h where "h = sint (HashKey (ht_conf ht) key)"
  define S where "S = slots ht h"
  have ok: "table_ok ht" using hd by (simp add: holds_def)
  have lay: "layout_ok ht" using ok by (simp add: table_ok_def)
  have h: "head ht h" using head_HashKey [OF lay] by (simp add: h_def)
  have it: "in_table ht h 0" using head_in_table [OF lay h] .
  have hk: "sint (HashKey (ht_conf ht) key) = h" by (simp add: h_def)
  have tS: "tidy S" and mS: "mset (live S) = filter_mset (\<lambda>p. sint (HashKey (ht_conf ht) (fst p)) = h) M"
    using hd h by (simp_all add: holds_def S_def)
  have R: "Remove ht key val = Inr (case remove_walk key val S of
                  None \<Rightarrow> ht | Some j \<Rightarrow> clear_entry ht (coords ht 0 h ! j))"
    using Remove_loop_walk [OF lay it, of key val]
    by (simp add: Remove_def h_def [symmetric] S_def slots_def)
  show ?thesis
  proof (cases "remove_walk key val S")
    case None
    have "(key, val) \<notin> set (live S)" using remove_walk_None [OF tS None] .
    then have "(key, val) \<notin># mset (live S)" by simp
    then have "(key, val) \<notin># M" unfolding mS by (simp add: h_def)
    then have "M - {#(key, val)#} = M" by simp
    then show ?thesis using R None hd by simp
  next
    case (Some j)
    have jS: "j < length S" "S ! j = (1, key, val)" using remove_walk_Some [OF Some] by simp_all
    have jl: "j < length (coords ht 0 h)" using jS(1) by (simp add: S_def slots_def)
    obtain b e where c: "coords ht 0 h ! j = (b, e)" by (metis surj_pair)
    have inj: "in_table ht b e"
      using coords_in_table [OF lay it] jl c nth_mem [of j "coords ht 0 h"] by auto
    have ea: "entry_at ht (b, e) = (1, key, val)"
      using jS(2) jl c by (simp add: S_def slots_def)
    define ht' where "ht' = clear_entry ht (b, e)"
    have "(key, val) \<in> set (live S)"
      using jS by (force simp: live_def intro: nth_mem)
    then have "(key, val) \<in># mset (live S)" by simp
    then have inM: "(key, val) \<in># M" unfolding mS by simp
    then have kv: "(key, val) \<noteq> (0, 0)" using hd by (auto simp: holds_def)
    note fs = frame_step [OF ok h jl c, of ht' "entry_addr ht b e + 1" "(0, key, val)"]
    have f: "ht_conf ht' = ht_conf ht" "numBuckets ht' = numBuckets ht" "Used ht' = Used ht"
      "Size ht' = Size ht" "Growth ht' = Growth ht"
      by (simp_all add: ht'_def clear_entry_fields)
    have fr: "agree_outside (Buf ht) (Buf ht') (entry_addr ht b e) (entry_addr ht b e + 1)"
      using clear_entry_frame [OF lay inj] by (simp add: ht'_def)
    have x: "entry_at ht' (b, e) = (0, key, val)"
      using clear_entry_at [OF lay inj ea] by (simp add: ht'_def)
    have ok': "table_ok ht'" using fs(1) f fr x by simp
    have sh: "slots ht' h = S[j := (0, key, val)]" using fs(2) f fr x by (simp add: S_def)
    have so: "slots ht' h' = slots ht h'" if "head ht h'" "h' \<noteq> h" for h'
      using fs(3) f fr x that by simp
    have hd': "head ht' = head ht" by (simp add: head_def fun_eq_iff f)
    have "tidy (slots ht' h') \<and>
          mset (live (slots ht' h')) =
            filter_mset (\<lambda>p. sint (HashKey (ht_conf ht') (fst p)) = h') (M - {#(key, val)#})"
      if h': "head ht h'" for h'
    proof (cases "h' = h")
      case True
      then show ?thesis
        using tidy_remove [OF tS Some kv] live_remove [OF Some] mS hk
        by (simp add: sh f filter_diff_mset)
    next
      case False
      have "tidy (slots ht h')"
        "mset (live (slots ht h')) = filter_mset (\<lambda>p. sint (HashKey (ht_conf ht) (fst p)) = h') M"
        using hd h' by (simp_all add: holds_def)
      then show ?thesis using False so [OF h' False] hk by (simp add: f filter_diff_mset)
    qed
    moreover have "(0, 0) \<notin># M - {#(key, val)#}" using hd by (auto simp: holds_def dest: in_diffD)
    ultimately have "holds ht' (M - {#(key, val)#})"
      using ok' unfolding holds_def hd' by blast
    then show ?thesis using R Some f by (simp add: c ht'_def)
  qed
qed

text \<open>
  A sequence of \<open>Put\<close> and \<open>Remove\<close> calls, \<open>run\<close> on a table from left to right;
  \<open>content\<close> is the list of pairs put and not removed since, and \<open>stored ht key\<close> the
  values of the live entries with the key, in the order of the chain walk.
\<close>

datatype operation = PutOp go_int go_int | RemoveOp go_int go_int

fun run :: "HashTable \<Rightarrow> operation list \<Rightarrow> (error + HashTable) option" where
  "run ht [] = Some (Inr ht)"
| "run ht (PutOp k v # ops) =
     (case Put ht k v of
        None \<Rightarrow> None
      | Some (Inl e) \<Rightarrow> Some (Inl e)
      | Some (Inr ht') \<Rightarrow> run ht' ops)"
| "run ht (RemoveOp k v # ops) =
     (case Remove ht k v of
        Inl e \<Rightarrow> Some (Inl e)
      | Inr ht' \<Rightarrow> run ht' ops)"

fun content :: "operation list \<Rightarrow> (go_int \<times> go_int) list \<Rightarrow> (go_int \<times> go_int) list" where
  "content [] c = c"
| "content (PutOp k v # ops) c = content ops (c @ [(k, v)])"
| "content (RemoveOp k v # ops) c = content ops (remove1 (k, v) c)"

definition stored :: "HashTable \<Rightarrow> go_int \<Rightarrow> go_int list" where
  "stored ht key =
     map snd (filter (\<lambda>p. fst p = key) (live (slots ht (sint (HashKey (ht_conf ht) key)))))"

text \<open>
  An empty table: the \<open>InitialBuckets\<close> head buckets and nothing else, in a buffer of
  zeros, as \<open>HashTable.Clear\<close> leaves it.
\<close>

definition empty_table :: "HashTable \<Rightarrow> bool" where
  "empty_table ht \<longleftrightarrow>
     layout_ok ht \<and> numBuckets ht = InitialBuckets (ht_conf ht) \<and>
     Used ht = numBuckets ht * BucketSize (ht_conf ht) \<and> Size ht = int (length (Buf ht)) \<and>
     0 < Growth ht \<and> (\<forall>x \<in> set (Buf ht). x = 0)"

lemma Calculate_idem:
  "CalculateConfigConstants (CalculateConfigConstants conf) = CalculateConfigConstants conf"
  by (simp add: CalculateConfigConstants_def)

lemma scan_zero_table:
  assumes "\<forall>i \<in> set xs. lastBucket ht i = Inr i \<and> i \<le> m"
  shows "fold (\<lambda>i acc. case acc of
                  Inl e \<Rightarrow> Inl e
                | Inr largestBucketNum \<Rightarrow>
                    (case lastBucket ht i of
                       Inl e \<Rightarrow> Inl e
                     | Inr lb \<Rightarrow>
                         if lb > largestBucketNum \<and> lb < numBuckets ht
                         then Inr lb else Inr largestBucketNum))
           xs (Inr m) = Inr m"
  using assms by (induction xs) simp_all

text \<open>
  \<open>HashTable.Clear\<close> on a new file gives an empty table, whenever the growth increment is
  positive, a bucket has at least one entry and \<open>1 << HashBits\<close> does not overflow.
\<close>

lemma Clear_empty_table:
  assumes "0 < HTFileGrowth conf" and "1 \<le> PerBucket conf" and "HashBits conf < 63"
  shows "\<exists>ht. HashTable_Clear (closedHashTable conf) = Some (Inr ht) \<and> empty_table ht"
proof -
  define c where "c = CalculateConfigConstants conf"
  define G where "G = HTFileGrowth conf"
  define s where "s = BucketSize c"
  define n where "n = InitialBuckets c"
  have cc: "CalculateConfigConstants c = c" by (simp add: c_def Calculate_idem)
  have s: "s = 10 + PerBucket conf * 21" "31 \<le> s"
    using assms(2) by (simp_all add: s_def c_def CalculateConfigConstants_def BucketHeader_def EntrySize_def)
  have pc: "PerBucket c = PerBucket conf" by (simp add: c_def CalculateConfigConstants_def)
  have n: "0 < n" using InitialBuckets_eq [OF assms(3)] by (simp add: n_def c_def)
  define ht0 where "ht0 = DataFile_Clear (closedHashTable conf)"
  have f0: "Used ht0 = 0" "Size ht0 = G" "Growth ht0 = G" "Buf ht0 = replicate (nat G) 0"
    "ht_conf ht0 = c" "numBuckets ht0 = 0"
    by (simp_all add: ht0_def DataFile_Clear_def closedHashTable_def G_def c_def)
  define ht1 where "ht1 = ht0\<lparr>numBuckets := go_quot (Size ht0) (BucketSize (ht_conf ht0))\<rparr>"
  have q: "numBuckets ht1 = G div s"
    using assms(1) s(2) by (simp add: ht1_def f0 go_quot_def s_def [symmetric] G_def)
  have last1: "lastBucket ht1 i = Inr i" if "0 \<le> i" for i
  proof -
    have "nextBucket ht1 i = Inr 0"
    proof (cases "i \<ge> numBuckets ht1")
      case True
      then show ?thesis by (simp add: nextBucket_def)
    next
      case False
      then have "i + 1 \<le> G div s" using q by simp
      then have "(i + 1) * s \<le> (G div s) * s" using s(2) by (intro mult_right_mono) simp_all
      also have "\<dots> \<le> G"
        using div_mult_mod_eq [of G s] pos_mod_sign [of s G] s(2) by linarith
      finally have "i * s + 10 \<le> G" using s(2) by (simp add: algebra_simps)
      moreover have "0 \<le> i * s" using that s(2) by simp
      moreover have "zero_from (Buf ht1) 0" by (simp add: zero_from_def ht1_def f0)
      moreover have "int (length (Buf ht1)) = G" using assms(1) by (simp add: ht1_def f0 G_def)
      ultimately have "Varint_slice (Buf ht1) (i * s) (i * s + 10) = Some (0, 1)"
        by (intro Varint_slice_zero [where n = 0]) simp_all
      then show ?thesis
        by (simp add: nextBucket_def Let_def ht1_def f0 s_def [symmetric])
    qed
    then show ?thesis by simp
  qed
  have scan: "fold (\<lambda>i acc. case acc of
                  Inl e \<Rightarrow> Inl e
                | Inr largestBucketNum \<Rightarrow>
                    (case lastBucket ht1 i of
                       Inl e \<Rightarrow> Inl e
                     | Inr lb \<Rightarrow>
                         if lb > largestBucketNum \<and> lb < numBuckets ht1
                         then Inr lb else Inr largestBucketNum))
           [0 .. n - 1] (Inr (n - 1)) = Inr (n - 1)"
    using last1 by (intro scan_zero_table) simp
  define ht2 where "ht2 = ht1\<lparr>numBuckets := n\<rparr>"
  define r :: "(error + HashTable) option" where "r = (if n * s > G
      then (case EnsureSize (ht2\<lparr>Used := G\<rparr>) (n * s - G) of
              None \<Rightarrow> None | Some ht3 \<Rightarrow> Some (Inr (ht3\<lparr>Used := n * s\<rparr>)))
      else Some (Inr (ht2\<lparr>Used := n * s\<rparr>)))"
  have h1: "ht1 = ht0\<lparr>numBuckets := go_quot G s\<rparr>" by (simp add: ht1_def f0 s_def)
  have "calculateNumBuckets ht0 = r"
    using s(2) scan [unfolded h1]
    by (simp add: calculateNumBuckets_def Let_def f0 s_def [symmetric] n_def [symmetric]
        r_def ht2_def h1 del: lastBucket.simps cong: option.case_cong)
  then have C: "HashTable_Clear (closedHashTable conf) = r"
    by (simp add: HashTable_Clear_def ht0_def)
  have f2: "Size ht2 = G" "Growth ht2 = G" "Buf ht2 = replicate (nat G) 0"
    "ht_conf ht2 = c" "numBuckets ht2 = n"
    by (simp_all add: ht2_def ht1_def f0)
  have lay: "c = CalculateConfigConstants c" "1 \<le> PerBucket c" "0 < InitialBuckets c"
    using cc assms(2) n by (simp_all add: pc n_def)
  show ?thesis
  proof (cases "n * s > G")
    case False
    then have "r = Some (Inr (ht2\<lparr>Used := n * s\<rparr>))" by (simp add: r_def)
    moreover have "empty_table (ht2\<lparr>Used := n * s\<rparr>)"
      using False lay assms(1)
      by (simp add: empty_table_def layout_ok_def f2 n_def [symmetric] s_def [symmetric] G_def [symmetric])
    ultimately show ?thesis using C by simp
  next
    case True
    have "0 < Growth (ht2\<lparr>Used := G\<rparr>)" using assms(1) by (simp add: f2 G_def)
    from EnsureSize_grows [OF this, of "n * s - G"]
    obtain k where k: "EnsureSize (ht2\<lparr>Used := G\<rparr>) (n * s - G) =
        Some (ht2\<lparr>Used := G, Buf := replicate (nat G) 0 @ replicate k 0, Size := G + int k\<rparr>)"
        "n * s \<le> G + int k"
      by (auto simp: f2)
    define ht3 where "ht3 = ht2\<lparr>Used := G, Buf := replicate (nat G) 0 @ replicate k 0, Size := G + int k\<rparr>"
    have "r = Some (Inr (ht3\<lparr>Used := n * s\<rparr>))" using True k(1) by (simp add: r_def ht3_def)
    moreover have "empty_table (ht3\<lparr>Used := n * s\<rparr>)"
      using k(2) lay assms(1)
      by (simp add: empty_table_def layout_ok_def ht3_def f2 n_def [symmetric] s_def [symmetric]
          G_def [symmetric])
    ultimately show ?thesis using C by simp
  qed
qed

lemma empty_holds:
  assumes "empty_table ht"
  shows "holds ht {#}"
proof -
  have lay: "layout_ok ht" and nb: "numBuckets ht = InitialBuckets (ht_conf ht)"
    and u: "Used ht = numBuckets ht * BucketSize (ht_conf ht)"
    and sz: "Size ht = int (length (Buf ht))" and gr: "0 < Growth ht"
    and z: "\<forall>x \<in> set (Buf ht). x = 0"
    using assms by (simp_all add: empty_table_def)
  have z0: "zero_from (Buf ht) n" for n using z by (simp add: zero_from_def)
  have hdr: "Varint_slice (Buf ht) (b * BucketSize (ht_conf ht)) (b * BucketSize (ht_conf ht) + 10)
      = Some (0, 1)" if "0 \<le> b" "b < numBuckets ht" for b
    using header_bounds(1,4) [OF lay that] by (intro Varint_slice_zero [OF z0 order_refl])
  have nx: "nextBucket (ht\<lparr>numBuckets := M\<rparr>) b = Inr 0" if "0 \<le> b" "b < numBuckets ht" for b M
    using hdr [OF that] by (simp add: nextBucket_def Let_def)
  have nx0: "nextBucket ht b = Inr 0" if "0 \<le> b" "b < numBuckets ht" for b
    using hdr [OF that] by (simp add: nextBucket_def Let_def)
  have ls: "links_stable ht" using nx nx0 by (simp add: links_stable_def)
  have co: "coords ht 0 h = map (\<lambda>e'. (h, e')) [0 .. PerBucket (ht_conf ht) - 1]" if "head ht h" for h
    using coords_single_bucket [OF lay head_in_table [OF lay that]] nx0 [of h] that nb
    by (simp add: head_def)
  have cd: "chains_disjoint ht"
    unfolding chains_disjoint_def by (auto simp: co)
  have ok: "table_ok ht"
    using lay u sz gr z0 ls cd by (simp add: table_ok_def)
  have sl: "slots ht h = replicate (nat (PerBucket (ht_conf ht))) (0, 0, 0)" if h: "head ht h" for h
  proof -
    have "entry_at ht (h, e) = (0, 0, 0)" if "0 \<le> e \<and> e < PerBucket (ht_conf ht)" for e
    proof -
      have "in_table ht h e" using head_in_table [OF lay h] that by (simp add: in_table_def)
      from entry_addr_bounds(3,4) [OF lay this] show ?thesis
        unfolding entry_at_def fst_conv snd_conv by (intro read_entry_zero [OF z0 order_refl])
    qed
    then show ?thesis unfolding slots_def co [OF h] by (intro new_slots) simp
  qed
  have "tidy (slots ht h) \<and> live (slots ht h) = []" if "head ht h" for h
    using tidy_fresh [of "[]" "nat (PerBucket (ht_conf ht))"] by (simp add: sl [OF that] live_def)
  then show ?thesis using ok by (simp add: holds_def)
qed

lemma run_holds:
  assumes "holds ht (mset c)" and "\<forall>op \<in> set ops. op \<noteq> PutOp 0 0"
    and "numBuckets ht + int (length ops) < 2 ^ 63"
  shows "\<exists>ht'. run ht ops = Some (Inr ht') \<and> holds ht' (mset (content ops c)) \<and>
           ht_conf ht' = ht_conf ht"
  using assms
proof (induction ops arbitrary: ht c)
  case Nil
  then show ?case by simp
next
  case (Cons op ops)
  show ?case
  proof (cases op)
    case (PutOp k v)
    have kv: "(k, v) \<noteq> (0, 0)" using Cons.prems(2) PutOp by auto
    have "numBuckets ht < 2 ^ 63" using Cons.prems(3) by simp
    from Put_holds [OF Cons.prems(1) kv this]
    obtain ht1 where ht1: "Put ht k v = Some (Inr ht1)" "holds ht1 (add_mset (k, v) (mset c))"
        "ht_conf ht1 = ht_conf ht" "numBuckets ht1 \<le> numBuckets ht + 1"
      by blast
    have "holds ht1 (mset (c @ [(k, v)]))" using ht1(2) by simp
    moreover have "\<forall>op \<in> set ops. op \<noteq> PutOp 0 0" using Cons.prems(2) by simp
    moreover have "numBuckets ht1 + int (length ops) < 2 ^ 63" using Cons.prems(3) ht1(4) by simp
    ultimately obtain ht' where "run ht1 ops = Some (Inr ht')"
        "holds ht' (mset (content ops (c @ [(k, v)])))" "ht_conf ht' = ht_conf ht1"
      using Cons.IH by blast
    then show ?thesis using ht1 PutOp by simp
  next
    case (RemoveOp k v)
    from Remove_holds [OF Cons.prems(1), of k v]
    obtain ht1 where ht1: "Remove ht k v = Inr ht1" "holds ht1 (mset c - {#(k, v)#})"
        "ht_conf ht1 = ht_conf ht" "numBuckets ht1 = numBuckets ht"
      by blast
    have "holds ht1 (mset (remove1 (k, v) c))" using ht1(2) by simp
    moreover have "\<forall>op \<in> set ops. op \<noteq> PutOp 0 0" using Cons.prems(2) by simp
    moreover have "numBuckets ht1 + int (length ops) < 2 ^ 63" using Cons.prems(3) ht1(4) by simp
    ultimately obtain ht' where "run ht1 ops = Some (Inr ht')"
        "holds ht' (mset (content ops (remove1 (k, v) c)))" "ht_conf ht' = ht_conf ht1"
      using Cons.IH by blast
    then show ?thesis using ht1 RemoveOp by simp
  qed
qed

lemma Get_holds:
  assumes "holds ht M"
  shows "Get ht key 0 = Inr (stored ht key)"
    and "mset (stored ht key) = image_mset snd (filter_mset (\<lambda>p. fst p = key) M)"
proof -
  define h where "h = sint (HashKey (ht_conf ht) key)"
  have lay: "layout_ok ht" using assms by (simp add: holds_def table_ok_def)
  have h: "head ht h" using head_HashKey [OF lay] by (simp add: h_def)
  have t: "tidy (slots ht h)"
    and m: "mset (live (slots ht h)) = filter_mset (\<lambda>p. sint (HashKey (ht_conf ht) (fst p)) = h) M"
    using assms h by (simp_all add: holds_def)
  show "Get ht key 0 = Inr (stored ht key)"
    using Get_loop_walk [OF lay head_in_table [OF lay h], of key 0 0 "[]"] get_walk_tidy [OF t, of key]
    by (simp add: Get_def stored_def h_def [symmetric] slots_def)
  have "mset (stored ht key) = image_mset snd (filter_mset (\<lambda>p. fst p = key) (mset (live (slots ht h))))"
    by (simp add: stored_def h_def)
  also have "\<dots> = image_mset snd (filter_mset (\<lambda>p. fst p = key) M)"
    unfolding m by (simp add: h_def filter_filter_mset conj_commute cong: conj_cong)
  finally show "mset (stored ht key) = image_mset snd (filter_mset (\<lambda>p. fst p = key) M)" .
qed

text \<open>
  Claim C3. On a table that starts empty, every sequence of \<open>Put\<close> and \<open>Remove\<close> calls
  in which the pair \<open>(0, 0)\<close> is never put returns without an error, and afterwards
  \<open>Get(key, 0)\<close> returns, for every key, the values of the live entries with that key in
  the order of the chain walk; as a multiset they are the values put with the key and not
  removed since. The number of buckets stays below \<open>2\<^sup>6\<^sup>3\<close>, so that the links
  written by \<open>growBucket\<close> are read back as they were written.
\<close>

theorem Put_Get_law:
  assumes "empty_table ht" and "PutOp 0 0 \<notin> set ops"
    and "InitialBuckets (ht_conf ht) + int (length ops) < 2 ^ 63"
  shows "\<exists>ht'. run ht ops = Some (Inr ht') \<and>
           (\<forall>key. Get ht' key 0 = Inr (stored ht' key) \<and>
                  mset (stored ht' key) = mset (map snd (filter (\<lambda>p. fst p = key) (content ops []))))"
proof -
  have "holds ht (mset [])" using empty_holds [OF assms(1)] by simp
  moreover have "numBuckets ht + int (length ops) < 2 ^ 63"
    using assms(1,3) by (simp add: empty_table_def)
  moreover have "\<forall>op \<in> set ops. op \<noteq> PutOp 0 0" using assms(2) by auto
  ultimately obtain ht' where ht': "run ht ops = Some (Inr ht')" "holds ht' (mset (content ops []))"
    using run_holds [of ht "[]" ops] by blast
  show ?thesis
    using ht'(1) Get_holds [OF ht'(2)] by (simp add: mset_filter mset_map)
qed

text \<open>The table of a new file with \<open>tinyConfig\<close>: two head buckets of two entries.\<close>

definition emptyTable :: HashTable where
  "emptyTable =
     (case HashTable_Clear (closedHashTable tinyConfig) of
        Some (Inr ht) \<Rightarrow> ht
      | _ \<Rightarrow> closedHashTable tinyConfig)"

definition demoOps :: "operation list" where
  "demoOps = [PutOp 0 5, PutOp 0 1, PutOp 0 7, RemoveOp 0 1, PutOp 3 0, PutOp 0 0x100]"

theorem Put_Get_law_witness:
  "empty_table emptyTable \<and> PutOp 0 0 \<notin> set demoOps \<and>
   InitialBuckets (ht_conf emptyTable) + int (length demoOps) < 2 ^ 63 \<and>
   (\<exists>ht'. run emptyTable demoOps = Some (Inr ht') \<and>
      (\<forall>key. Get ht' key 0 = Inr (stored ht' key) \<and>
             mset (stored ht' key) = mset (map snd (filter (\<lambda>p. fst p = key) (content demoOps []))))) \<and>
   (case run emptyTable demoOps of
      Some (Inr ht') \<Rightarrow> Get ht' 0 0 = Inr [5, 0x100, 7] \<and> Get ht' 3 0 = Inr [0] \<and> numBuckets ht' = 3
    | _ \<Rightarrow> False)"
proof -
  have e: "case run emptyTable demoOps of
      Some (Inr ht') \<Rightarrow> Get ht' 0 0 = Inr [5, 0x100, 7] \<and> Get ht' 3 0 = Inr [0] \<and> numBuckets ht' = 3
    | _ \<Rightarrow> False"
    by code_simp
  have h1: "empty_table emptyTable" unfolding empty_table_def layout_ok_def by code_simp
  have h2: "PutOp 0 0 \<notin> set demoOps" by (simp add: demoOps_def)
  have h3: "InitialBuckets (ht_conf emptyTable) + int (length demoOps) < 2 ^ 63" by code_simp
  show ?thesis using Put_Get_law [OF h1 h2 h3] h1 h2 h3 e by blast
qed

text \<open>
  The pair \<open>(0, 0)\<close> is the exception. \<open>Remove(0, 0)\<close> clears the flag of its entry, which
  then reads as an entry that was never used, and \<open>Get\<close> stops there: after
  \<open>Put(0, 0)\<close>, \<open>Put(0, 1)\<close>, \<open>Remove(0, 0)\<close> the pair \<open>(0, 1)\<close> is still put, and
  \<open>Get(0, 0)\<close> returns nothing.
\<close>

theorem Get_after_removing_zero_pair:
  "(case run emptyTable [PutOp 0 0, PutOp 0 1, RemoveOp 0 0] of
      Some (Inr ht') \<Rightarrow> Get ht' 0 0 = Inr []
    | _ \<Rightarrow> False) \<and>
   content [PutOp 0 0, PutOp 0 1, RemoveOp 0 0] [] = [(0, 1)]"
proof
  show "case run emptyTable [PutOp 0 0, PutOp 0 1, RemoveOp 0 0] of
      Some (Inr ht') \<Rightarrow> Get ht' 0 0 = Inr []
    | _ \<Rightarrow> False"
    by code_simp
  show "content [PutOp 0 0, PutOp 0 1, RemoveOp 0 0] [] = [(0, 1)]" by simp
qed

end
